theory Spec2Isabelle
  imports Main "HOL-Library.AList"
begin

section \<open>The hierarchy builder of the Confluence space exporter\<close>

text \<open>
  This theory embeds \<^verbatim>\<open>buildPageTree\<close> of \<^verbatim>\<open>src/index.js\<close> (lines 186-249).
  The JavaScript builds a graph of mutable objects that reference each other through
  their \<^verbatim>\<open>children\<close> arrays, so the embedding keeps an explicit store: an object
  reference is an address (an index into the list of allocated objects), and
  \<^verbatim>\<open>pageMap\<close>, the queue and every \<^verbatim>\<open>children\<close> array hold addresses.
\<close>

subsection \<open>Data\<close>

text \<open>
  A page summary as the REST API returns it. \<^verbatim>\<open>buildPageTree\<close> reads the field
  \<^verbatim>\<open>id\<close> only and the index renderer reads \<^verbatim>\<open>title\<close>; whatever else a
  summary carries is copied along untouched and is left out. The identifier type is
  left open. The source compares ids by \<^verbatim>\<open>Map\<close> lookup and by \<^verbatim>\<open>===\<close>, which
  agree on strings and on every other value but \<^verbatim>\<open>NaN\<close>; equality stands for both.
\<close>

record 'i page_summary =
  page_id :: 'i
  title :: string

text \<open>
  The object built by \<^verbatim>\<open>{ ...page, children: [] }\<close>: the fields of the summary,
  extended by the array of references to the child objects.
\<close>

type_synonym addr = nat

record 'i page_node = "'i page_summary" +
  children :: "addr list"

text \<open>
  The local variables of \<^verbatim>\<open>buildPageTree\<close>. \<open>heap\<close> is the store of allocated
  page objects. \<open>pageMap\<close> is a JavaScript \<^verbatim>\<open>Map\<close>, whose iteration order is the
  insertion order, hence an association list; \<open>childOfMap\<close> is only ever asked
  \<^verbatim>\<open>has\<close>, hence a map. \<open>calls\<close> is a ghost field: the arguments of the
  \<^verbatim>\<open>fetchChildren\<close> invocations issued so far, oldest first.
\<close>

record 'i build_state =
  heap :: "'i page_node list"
  pageMap :: "('i \<times> addr) list"
  childOfMap :: "'i \<rightharpoonup> 'i"
  queue :: "addr list"
  head :: nat
  calls :: "'i list"

text \<open>
  \<^verbatim>\<open>fetchChildren\<close> is the remote operation: for a page id it either rejects with
  an error or resolves to the array of child summaries.
\<close>

type_synonym ('e, 'i) fetcher = "'i \<Rightarrow> 'e + 'i page_summary list"

subsection \<open>The operations\<close>

definition new_node :: "'i page_summary \<Rightarrow> 'i page_node" where
  "new_node page = \<lparr>page_id = page_id page, title = title page, children = []\<rparr>"

definition init_state :: "'i build_state" where
  "init_state = \<lparr>heap = [], pageMap = [], childOfMap = Map.empty, queue = [], head = 0,
     calls = []\<rparr>"

text \<open>
  Lines 193-199, the body of the seeding loop: a page whose id is not yet a key of
  \<open>pageMap\<close> gets a fresh object, which is registered and enqueued.
\<close>

definition seed_page :: "'i build_state \<Rightarrow> 'i page_summary \<Rightarrow> 'i build_state" where
  "seed_page s page =
     (if map_of (pageMap s) (page_id page) = None then
        let pageCopy = length (heap s) in
        s\<lparr>heap := heap s @ [new_node page],
          pageMap := AList.update (page_id page) pageCopy (pageMap s),
          queue := queue s @ [pageCopy]\<rparr>
      else s)"

definition seed :: "'i page_summary list \<Rightarrow> 'i build_state" where
  "seed initialPages = foldl seed_page init_state initialPages"

text \<open>
  Lines 211-236, the body of the loop over the fetched children. In the branch of a
  known child the source assigns \<^verbatim>\<open>childPage.children || []\<close> to
  \<^verbatim>\<open>childPage.children\<close>; every allocated object carries an array there, so the
  assignment stores the array it reads. A JavaScript reference always points to an
  object; accordingly every address that the loops hold is below the length of the
  store (part of \<open>wf_state\<close> below), and no read of the store is out of range.
\<close>

definition process_child :: "addr \<Rightarrow> 'i build_state \<Rightarrow> 'i page_summary \<Rightarrow> 'i build_state" where
  "process_child currentPage s childData =
     (let (childPage, s1) =
        (case map_of (pageMap s) (page_id childData) of
           None \<Rightarrow>
             (let a = length (heap s) in
              (a, s\<lparr>heap := heap s @ [new_node childData],
                     pageMap := AList.update (page_id childData) a (pageMap s),
                     queue := queue s @ [a]\<rparr>))
         | Some a \<Rightarrow>
             (a, s\<lparr>heap := (heap s)[a := (heap s ! a)\<lparr>children := children (heap s ! a)\<rparr>]\<rparr>));
          s2 =
        (if \<not> list_ex (\<lambda>c. page_id (heap s1 ! c) = page_id (heap s1 ! childPage))
                (children (heap s1 ! currentPage))
         then s1\<lparr>heap := (heap s1)[currentPage :=
                  (heap s1 ! currentPage)\<lparr>children := children (heap s1 ! currentPage) @ [childPage]\<rparr>]\<rparr>
         else s1)
      in s2\<lparr>childOfMap :=
            (childOfMap s2)(page_id (heap s2 ! childPage) \<mapsto> page_id (heap s2 ! currentPage))\<rparr>)"

text \<open>
  Lines 205-209: the page at the head of the queue is taken and its children are
  requested. \<open>current_id\<close> is the argument of that request.
\<close>

definition current_id :: "'i build_state \<Rightarrow> 'i" where
  "current_id s = page_id (heap s ! (queue s ! head s))"

definition dequeue :: "'i build_state \<Rightarrow> 'i build_state" where
  "dequeue s = s\<lparr>head := head s + 1, calls := calls s @ [current_id s]\<rparr>"

definition process_page :: "'i build_state \<Rightarrow> 'i page_summary list \<Rightarrow> 'i build_state" where
  "process_page s kids = foldl (process_child (queue s ! head s)) (dequeue s) kids"

text \<open>
  Lines 203-237, the work loop. Nothing bounds the number of its iterations, so it is a
  partial function: \<open>None\<close> is a run that never leaves the loop. A rejected
  \<^verbatim>\<open>fetchChildren\<close> leaves \<^verbatim>\<open>buildPageTree\<close> at once through the
  \<^verbatim>\<open>await\<close>; the error is returned together with the requests issued until then.
\<close>

partial_function (option) loop ::
  "('e, 'i) fetcher \<Rightarrow> 'i build_state \<Rightarrow> ('e \<times> 'i list + 'i build_state) option" where
  "loop fetchChildren s =
     (if head s < length (queue s) then
        (case fetchChildren (current_id s) of
           Inl e \<Rightarrow> Some (Inl (e, calls (dequeue s)))
         | Inr kids \<Rightarrow> loop fetchChildren (process_page s kids))
      else Some (Inr s))"

declare loop.simps [code]

text \<open>Lines 240-246: the registered objects whose id is no key of \<open>childOfMap\<close>.\<close>

definition rootPages :: "'i build_state \<Rightarrow> addr list" where
  "rootPages s =
     filter (\<lambda>page. childOfMap s (page_id (heap s ! page)) = None) (map snd (pageMap s))"

text \<open>
  The result of a build that returns: the array of root references, and the store they
  point into.
\<close>

record 'i forest =
  nodes :: "'i page_node list"
  roots :: "addr list"

definition forest_of :: "'i build_state \<Rightarrow> 'i forest" where
  "forest_of s = \<lparr>nodes = heap s, roots = rootPages s\<rparr>"

definition buildPageTree ::
  "'i page_summary list \<Rightarrow> ('e, 'i) fetcher \<Rightarrow> ('e + 'i forest) option" where
  "buildPageTree initialPages fetchChildren =
     (case loop fetchChildren (seed initialPages) of
        None \<Rightarrow> None
      | Some (Inl (e, _)) \<Rightarrow> Some (Inl e)
      | Some (Inr s) \<Rightarrow> Some (Inr (forest_of s)))"


subsection \<open>Notions used to state the properties\<close>

text \<open>
  The children that \<^verbatim>\<open>fetchChildren\<close> resolves to for a page (none when it rejects),
  their ids, and everything observed by a run that has issued the requests \<open>tr\<close>:
  the initial pages followed by the answers, in the order of the requests.
\<close>

definition kids_of :: "('e, 'i) fetcher \<Rightarrow> 'i \<Rightarrow> 'i page_summary list" where
  "kids_of fetchChildren i = (case fetchChildren i of Inl _ \<Rightarrow> [] | Inr kids \<Rightarrow> kids)"

definition child_ids :: "('e, 'i) fetcher \<Rightarrow> 'i \<Rightarrow> 'i set" where
  "child_ids fetchChildren i = page_id ` set (kids_of fetchChildren i)"

definition observed ::
  "'i page_summary list \<Rightarrow> ('e, 'i) fetcher \<Rightarrow> 'i list \<Rightarrow> 'i page_summary list" where
  "observed initialPages fetchChildren tr = initialPages @ concat (map (kids_of fetchChildren) tr)"

text \<open>
  Reading a sequence of summaries and keeping, for each id, the first summary that
  carries it: \<open>foldl observe []\<close> lists the distinct ids in the order of discovery.
\<close>

definition observe :: "'i page_summary list \<Rightarrow> 'i page_summary \<Rightarrow> 'i page_summary list" where
  "observe reg p = (if page_id p \<in> page_id ` set reg then reg else reg @ [p])"

text \<open>The parent whose edge to \<open>c\<close> was recorded last: the latest request that returned \<open>c\<close>.\<close>

definition last_parent :: "('e, 'i) fetcher \<Rightarrow> 'i list \<Rightarrow> 'i \<Rightarrow> 'i option" where
  "last_parent fetchChildren tr c = find (\<lambda>p. c \<in> child_ids fetchChildren p) (rev tr)"

text \<open>The id and title of a page object, and those of all allocated objects.\<close>

definition summary_of :: "'i page_node \<Rightarrow> 'i page_summary" where
  "summary_of n = \<lparr>page_id = page_id n, title = title n\<rparr>"

definition registry :: "'i build_state \<Rightarrow> 'i page_summary list" where
  "registry s = map summary_of (heap s)"

text \<open>The ids found in the \<^verbatim>\<open>children\<close> array of the object at address \<open>x\<close>.\<close>

definition kid_ids :: "'i build_state \<Rightarrow> addr \<Rightarrow> 'i set" where
  "kid_ids s x =
     (if x < length (heap s) then (\<lambda>c. page_id (heap s ! c)) ` set (children (heap s ! x)) else {})"

text \<open>
  The objects of the returned forest: the roots, and every object found in the
  \<^verbatim>\<open>children\<close> array of an object of the forest.
\<close>

inductive in_forest :: "'i forest \<Rightarrow> addr \<Rightarrow> bool" for F :: "'i forest" where
  root: "a \<in> set (roots F) \<Longrightarrow> in_forest F a"
| child: "in_forest F p \<Longrightarrow> a \<in> set (children (nodes F ! p)) \<Longrightarrow> in_forest F a"

definition forest_objects :: "'i forest \<Rightarrow> addr set" where
  "forest_objects F = {a. in_forest F a}"

text \<open>
  The states of the work loop: \<open>reaches fetchChildren s t\<close> when the loop, started in
  \<open>s\<close>, stands at its test in state \<open>t\<close> after some number of iterations, each with a
  request that resolved.
\<close>

inductive reaches :: "('e, 'i) fetcher \<Rightarrow> 'i build_state \<Rightarrow> 'i build_state \<Rightarrow> bool"
  for fetchChildren :: "('e, 'i) fetcher" and s :: "'i build_state" where
  start: "reaches fetchChildren s s"
| visit: "reaches fetchChildren s t \<Longrightarrow> head t < length (queue t) \<Longrightarrow>
          fetchChildren (current_id t) = Inr kids \<Longrightarrow>
          reaches fetchChildren s (process_page t kids)"

text \<open>The requests issued by a run that has ended, with an error or with a final state.\<close>

definition requests :: "'e \<times> 'i list + 'i build_state \<Rightarrow> 'i list" where
  "requests r = (case r of Inl (e, tr) \<Rightarrow> tr | Inr s \<Rightarrow> calls s)"

text \<open>The ids that the remote data can lead to from the initial pages.\<close>

inductive_set reachable_ids :: "'i page_summary list \<Rightarrow> ('e, 'i) fetcher \<Rightarrow> 'i set"
  for initialPages :: "'i page_summary list" and fetchChildren :: "('e, 'i) fetcher" where
  listed: "p \<in> set initialPages \<Longrightarrow> page_id p \<in> reachable_ids initialPages fetchChildren"
| fetched: "i \<in> reachable_ids initialPages fetchChildren \<Longrightarrow> c \<in> child_ids fetchChildren i \<Longrightarrow>
            c \<in> reachable_ids initialPages fetchChildren"

text \<open>The parent/child edges that the remote data reports to the requests \<open>tr\<close>.\<close>

definition child_edges :: "('e, 'i) fetcher \<Rightarrow> 'i list \<Rightarrow> ('i \<times> 'i) set" where
  "child_edges fetchChildren tr = {(p, c). p \<in> set tr \<and> c \<in> child_ids fetchChildren p}"

subsection \<open>Invariants of the store\<close>

text \<open>
  \<open>wf_state\<close> holds between any two steps of the two loops: the objects are registered
  and enqueued in the order of their allocation, no two carry the same id, every
  \<^verbatim>\<open>children\<close> array is free of repetitions and holds allocated objects with a
  recorded parent, and every recorded parent has the child in its array.
\<close>

definition wf_state :: "'i build_state \<Rightarrow> bool" where
  "wf_state s \<longleftrightarrow>
     pageMap s = map (\<lambda>a. (page_id (heap s ! a), a)) [0..<length (heap s)] \<and>
     distinct (map page_id (heap s)) \<and>
     queue s = [0..<length (heap s)] \<and>
     (\<forall>a<length (heap s). distinct (children (heap s ! a)) \<and>
        (\<forall>c\<in>set (children (heap s ! a)).
           c < length (heap s) \<and> childOfMap s (page_id (heap s ! c)) \<noteq> None)) \<and>
     (\<forall>c p. childOfMap s c = Some p \<longrightarrow>
        (\<exists>ca pa. ca < length (heap s) \<and> pa < length (heap s) \<and> page_id (heap s ! ca) = c \<and>
           page_id (heap s ! pa) = p \<and> ca \<in> set (children (heap s ! pa))))"

text \<open>
  The three effects that the loop bodies are made of: allocating and registering an
  object, pushing a reference onto a \<^verbatim>\<open>children\<close> array, and linking a child to
  the current page.
\<close>

definition alloc :: "'i build_state \<Rightarrow> 'i page_summary \<Rightarrow> 'i build_state" where
  "alloc s page = s\<lparr>heap := heap s @ [new_node page],
     pageMap := pageMap s @ [(page_id page, length (heap s))],
     queue := queue s @ [length (heap s)]\<rparr>"

definition add_kid :: "'i page_node list \<Rightarrow> addr \<Rightarrow> addr \<Rightarrow> 'i page_node list" where
  "add_kid h cur a = h[cur := (h ! cur)\<lparr>children := children (h ! cur) @ [a]\<rparr>]"

definition addr_of :: "'i build_state \<Rightarrow> 'i \<Rightarrow> addr" where
  "addr_of s i = the (map_of (pageMap s) i)"

definition link :: "addr \<Rightarrow> addr \<Rightarrow> 'i build_state \<Rightarrow> 'i build_state" where
  "link cur a s =
     s\<lparr>heap := (if a \<in> set (children (heap s ! cur)) then heap s else add_kid (heap s) cur a),
       childOfMap := (childOfMap s)(page_id (heap s ! a) \<mapsto> page_id (heap s ! cur))\<rparr>"

text \<open>
  \<open>run_inv\<close> holds whenever the work loop stands at its test: the requests issued are
  those for the first \<open>head\<close> objects, all resolved; the objects are the distinct ids
  observed, in the order of discovery; \<open>childOfMap\<close> holds the last recorded parent;
  a visited object has the fetched children in its array and the others have none.
\<close>

definition run_inv :: "'i page_summary list \<Rightarrow> ('e, 'i) fetcher \<Rightarrow> 'i build_state \<Rightarrow> bool" where
  "run_inv initialPages fetchChildren s \<longleftrightarrow>
     wf_state s \<and> head s \<le> length (heap s) \<and>
     calls s = map page_id (take (head s) (heap s)) \<and>
     registry s = foldl observe [] (observed initialPages fetchChildren (calls s)) \<and>
     childOfMap s = last_parent fetchChildren (calls s) \<and>
     (\<forall>x. kid_ids s x =
        (if x < head s then child_ids fetchChildren (page_id (heap s ! x)) else {})) \<and>
     (\<forall>i\<in>set (calls s). \<exists>kids. fetchChildren i = Inr kids)"

subsection \<open>Example runs\<close>

definition pg :: "nat \<Rightarrow> string \<Rightarrow> nat page_summary" where
  "pg i t = \<lparr>page_id = i, title = t\<rparr>"

text \<open>Page 3 is reported as a child of page 1 and of page 2.\<close>

definition moved_page :: "(string, nat) fetcher" where
  "moved_page i = (if i = 1 \<or> i = 2 then Inr [pg 3 ''C''] else Inr [])"

definition moved_page_forest :: "nat forest" where
  "moved_page_forest =
     \<lparr>nodes = [\<lparr>page_id = 1, title = ''A'', children = [2]\<rparr>,
               \<lparr>page_id = 2, title = ''B'', children = [2]\<rparr>,
               \<lparr>page_id = 3, title = ''C'', children = []\<rparr>],
      roots = [0, 1]\<rparr>"

text \<open>Every page has one child, with the next id.\<close>

definition endless :: "(string, nat) fetcher" where
  "endless i = Inr [pg (Suc i) []]"

text \<open>Page 1 lists page 2 twice, under two titles, and page 3.\<close>

definition twice_listed :: "(string, nat) fetcher" where
  "twice_listed i = (if i = 1 then Inr [pg 2 ''B'', pg 2 ''B2'', pg 3 ''C2''] else Inr [])"

definition twice_listed_pages :: "nat page_summary list" where
  "twice_listed_pages = [pg 1 ''A'', pg 3 ''C'', pg 1 ''A2'']"

definition twice_listed_final :: "nat build_state" where
  "twice_listed_final =
     \<lparr>heap = [\<lparr>page_id = 1, title = ''A'', children = [2, 1]\<rparr>,
              \<lparr>page_id = 3, title = ''C'', children = []\<rparr>,
              \<lparr>page_id = 2, title = ''B'', children = []\<rparr>],
      pageMap = [(1, 0), (3, 1), (2, 2)],
      childOfMap = [2 \<mapsto> 1, 3 \<mapsto> 1],
      queue = [0, 1, 2], head = 3, calls = [1, 3, 2]\<rparr>"

text \<open>A fetcher that differs from \<open>twice_listed\<close> on pages that are never requested.\<close>

definition twice_listed_alt :: "(string, nat) fetcher" where
  "twice_listed_alt i =
     (if i = 1 then Inr [pg 2 ''B'', pg 2 ''B2'', pg 3 ''C2'']
      else if i = 7 then Inl ''gone'' else Inr [])"

text \<open>The request for page 2 is rejected.\<close>

definition broken :: "(string, nat) fetcher" where
  "broken i = (if i = 1 then Inr [pg 2 ''B''] else if i = 2 then Inl ''timeout'' else Inr [])"

text \<open>Pages 1 and 2 are reported as children of each other.\<close>

definition two_cycle :: "(string, nat) fetcher" where
  "two_cycle i = (if i = 1 then Inr [pg 2 ''B''] else if i = 2 then Inr [pg 1 ''A''] else Inr [])"

definition two_cycle_forest :: "nat forest" where
  "two_cycle_forest =
     \<lparr>nodes = [\<lparr>page_id = 1, title = ''A'', children = [1]\<rparr>,
               \<lparr>page_id = 2, title = ''B'', children = [0]\<rparr>],
      roots = []\<rparr>"

section \<open>The loop bodies and the invariants\<close>

subsection \<open>The registry\<close>

lemma map_nth_fun: "map (\<lambda>a. f (xs ! a)) [0..<length xs] = map f xs"
proof -
  have "map (\<lambda>a. f (xs ! a)) [0..<length xs] = map f (map (nth xs) [0..<length xs])"
    by simp
  then show ?thesis by (simp only: map_nth)
qed

lemma wf_keys: "wf_state s \<Longrightarrow> map fst (pageMap s) = map page_id (heap s)"
  by (simp add: wf_state_def comp_def map_nth_fun)

lemma wf_vals: "wf_state s \<Longrightarrow> map snd (pageMap s) = [0..<length (heap s)]"
  by (simp add: wf_state_def comp_def)

lemma wf_lookup:
  assumes "wf_state s"
  shows "map_of (pageMap s) i = Some a \<longleftrightarrow> a < length (heap s) \<and> page_id (heap s ! a) = i"
proof -
  have d: "distinct (map fst (pageMap s))"
    using assms by (simp add: wf_keys) (simp add: wf_state_def)
  have "map_of (pageMap s) i = Some a \<longleftrightarrow> (i, a) \<in> set (pageMap s)"
    using d by simp
  also have "\<dots> \<longleftrightarrow> a < length (heap s) \<and> page_id (heap s ! a) = i"
    using assms by (auto simp: wf_state_def)
  finally show ?thesis .
qed

lemma wf_lookup_None:
  assumes "wf_state s"
  shows "map_of (pageMap s) i = None \<longleftrightarrow> i \<notin> page_id ` set (heap s)"
proof -
  have "map_of (pageMap s) i = None \<longleftrightarrow> i \<notin> fst ` set (pageMap s)"
    by (simp add: map_of_eq_None_iff)
  also have "fst ` set (pageMap s) = set (map fst (pageMap s))" by simp
  also have "\<dots> = page_id ` set (heap s)" using assms by (simp only: wf_keys) simp
  finally show ?thesis .
qed

lemma update_fresh: "k \<notin> fst ` set al \<Longrightarrow> AList.update k v al = al @ [(k, v)]"
  by (induction al) auto

subsection \<open>One fetched child, case by case\<close>

lemma wf_child_ids:
  assumes "wf_state s" "a < length (heap s)" "cur < length (heap s)"
  shows "list_ex (\<lambda>c. page_id (heap s ! c) = page_id (heap s ! a)) (children (heap s ! cur))
           \<longleftrightarrow> a \<in> set (children (heap s ! cur))"
proof -
  have d: "distinct (map page_id (heap s))" using assms(1) by (simp add: wf_state_def)
  have r: "\<forall>c\<in>set (children (heap s ! cur)). c < length (heap s)"
    using assms(1,3) by (simp add: wf_state_def)
  have "\<And>c. c < length (heap s) \<Longrightarrow> page_id (heap s ! c) = page_id (heap s ! a) \<longleftrightarrow> c = a"
    using d assms(2) by (auto simp: distinct_conv_nth)
  with r show ?thesis by (auto simp: list_ex_iff)
qed

lemma process_child_known:
  assumes "wf_state s" "cur < length (heap s)" "a < length (heap s)"
    and "page_id (heap s ! a) = page_id cd"
  shows "process_child cur s cd =
     (if a \<in> set (children (heap s ! cur))
      then s\<lparr>childOfMap := (childOfMap s)(page_id cd \<mapsto> page_id (heap s ! cur))\<rparr>
      else s\<lparr>heap := (heap s)[cur := (heap s ! cur)\<lparr>children := children (heap s ! cur) @ [a]\<rparr>],
             childOfMap := (childOfMap s)(page_id cd \<mapsto> page_id (heap s ! cur))\<rparr>)"
proof -
  have l: "map_of (pageMap s) (page_id cd) = Some a"
    using assms by (simp add: wf_lookup)
  show ?thesis
  proof (cases "a \<in> set (children (heap s ! cur))")
    case True
    then show ?thesis
      using assms(4) wf_child_ids[OF assms(1,3,2)]
      by (simp add: process_child_def l)
  next
    case False
    then show ?thesis
      using assms(2,3,4) wf_child_ids[OF assms(1,3,2)]
      by (cases "a = cur") (simp_all add: process_child_def l)
  qed
qed

lemma process_child_new:
  assumes "wf_state s" "cur < length (heap s)" "page_id cd \<notin> page_id ` set (heap s)"
  shows "process_child cur s cd =
     s\<lparr>heap := (heap s @ [new_node cd])[cur :=
                (heap s ! cur)\<lparr>children := children (heap s ! cur) @ [length (heap s)]\<rparr>],
       pageMap := pageMap s @ [(page_id cd, length (heap s))],
       queue := queue s @ [length (heap s)],
       childOfMap := (childOfMap s)(page_id cd \<mapsto> page_id (heap s ! cur))\<rparr>"
proof -
  have l: "map_of (pageMap s) (page_id cd) = None"
    using assms by (simp add: wf_lookup_None)
  have k: "page_id cd \<notin> fst ` set (pageMap s)"
    using l by (simp add: map_of_eq_None_iff)
  have r: "\<forall>c\<in>set (children (heap s ! cur)). c < length (heap s)"
    using assms(1,2) by (simp add: wf_state_def)
  have fresh: "page_id (heap s ! c) \<noteq> page_id cd" if "c < length (heap s)" for c
    using assms(3) nth_mem[OF that] by force
  have "\<not> list_ex (\<lambda>c. page_id ((heap s @ [new_node cd]) ! c) = page_id cd)
           (children (heap s ! cur))"
    using r fresh by (auto simp: list_ex_iff nth_append)
  then show ?thesis
    using assms(2)
    by (simp add: process_child_def l update_fresh[OF k] Let_def nth_append new_node_def)
qed

subsection \<open>Allocation and linking keep the store well-formed\<close>

lemma length_add_kid [simp]: "length (add_kid h cur a) = length h"
  by (simp add: add_kid_def)

lemma page_id_add_kid [simp]: "page_id (add_kid h cur a ! x) = page_id (h ! x)"
  by (cases "cur < length h"; cases "x = cur") (simp_all add: add_kid_def list_update_beyond)

lemma title_add_kid [simp]: "title (add_kid h cur a ! x) = title (h ! x)"
  by (cases "cur < length h"; cases "x = cur") (simp_all add: add_kid_def list_update_beyond)

lemma children_add_kid:
  "children (add_kid h cur a ! x) =
     (if x = cur \<and> cur < length h then children (h ! cur) @ [a] else children (h ! x))"
  by (cases "cur < length h"; cases "x = cur") (simp_all add: add_kid_def list_update_beyond)

lemma map_page_id_add_kid [simp]: "map page_id (add_kid h cur a) = map page_id h"
  by (rule nth_equalityI) simp_all

lemma wf_stateI:
  assumes "pageMap s = map (\<lambda>a. (page_id (heap s ! a), a)) [0..<length (heap s)]"
    and "distinct (map page_id (heap s))"
    and "queue s = [0..<length (heap s)]"
    and "\<And>a. a < length (heap s) \<Longrightarrow> distinct (children (heap s ! a))"
    and "\<And>a c. a < length (heap s) \<Longrightarrow> c \<in> set (children (heap s ! a)) \<Longrightarrow>
           c < length (heap s) \<and> childOfMap s (page_id (heap s ! c)) \<noteq> None"
    and "\<And>c p. childOfMap s c = Some p \<Longrightarrow>
        (\<exists>ca pa. ca < length (heap s) \<and> pa < length (heap s) \<and> page_id (heap s ! ca) = c \<and>
           page_id (heap s ! pa) = p \<and> ca \<in> set (children (heap s ! pa)))"
  shows "wf_state s"
  unfolding wf_state_def using assms by blast

lemma wf_set_parent:
  assumes "wf_state s" "cur < length (heap s)" "a < length (heap s)"
    and "a \<in> set (children (heap s ! cur))"
  shows "wf_state (s\<lparr>childOfMap := (childOfMap s)(page_id (heap s ! a) \<mapsto> page_id (heap s ! cur))\<rparr>)"
proof (rule wf_stateI, goal_cases)
  case (6 c p)
  show ?case
  proof (cases "c = page_id (heap s ! a)")
    case True
    with 6 assms have "p = page_id (heap s ! cur)" by simp
    with True assms show ?thesis
      by - (rule exI[of _ a], rule exI[of _ cur], simp)
  next
    case False
    with 6 assms(1) show ?thesis by (simp add: wf_state_def)
  qed
qed (use assms(1) in \<open>simp_all add: wf_state_def\<close>)

lemma wf_push_kid:
  assumes "wf_state s" "cur < length (heap s)" "a < length (heap s)"
    and "a \<notin> set (children (heap s ! cur))"
  shows "wf_state (s\<lparr>heap := add_kid (heap s) cur a,
     childOfMap := (childOfMap s)(page_id (heap s ! a) \<mapsto> page_id (heap s ! cur))\<rparr>)"
proof (rule wf_stateI, goal_cases)
  case 1
  show ?case using assms(1) by (simp add: wf_state_def)
next
  case 2
  show ?case using assms(1) by (simp add: wf_state_def)
next
  case 3
  show ?case using assms(1) by (simp add: wf_state_def)
next
  case (4 x)
  then show ?case using assms by (simp add: wf_state_def children_add_kid)
next
  case (5 x c)
  then show ?case using assms by (auto simp: wf_state_def children_add_kid split: if_splits)
next
  case (6 c p)
  show ?case
  proof (cases "c = page_id (heap s ! a)")
    case True
    with 6 assms have "p = page_id (heap s ! cur)" by simp
    with True assms show ?thesis
      by - (rule exI[of _ a], rule exI[of _ cur], simp add: children_add_kid)
  next
    case False
    with 6 assms(1) obtain ca pa where
      "ca < length (heap s)" "pa < length (heap s)" "page_id (heap s ! ca) = c"
      "page_id (heap s ! pa) = p" "ca \<in> set (children (heap s ! pa))"
      unfolding wf_state_def by (simp split: if_splits) blast
    then show ?thesis
      by - (rule exI[of _ ca], rule exI[of _ pa], auto simp: children_add_kid)
  qed
qed

lemma new_node_simps [simp]:
  "page_id (new_node cd) = page_id cd" "title (new_node cd) = title cd"
  "children (new_node cd) = []"
  by (simp_all add: new_node_def)

lemma wf_alloc:
  assumes "wf_state s" "page_id cd \<notin> page_id ` set (heap s)"
  shows "wf_state (alloc s cd)"
proof (rule wf_stateI, goal_cases)
  case 1
  show ?case using assms(1) by (simp add: wf_state_def alloc_def nth_append)
next
  case 2
  show ?case using assms by (simp add: wf_state_def alloc_def)
next
  case 3
  show ?case using assms(1) by (simp add: wf_state_def alloc_def)
next
  case (4 x)
  then show ?case using assms(1)
    by (cases "x = length (heap s)") (simp_all add: wf_state_def alloc_def nth_append new_node_def)
next
  case (5 x c)
  then have x: "x < length (heap s)"
    by (cases "x = length (heap s)") (simp_all add: alloc_def new_node_def)
  with 5 have "c \<in> set (children (heap s ! x))" by (simp add: alloc_def nth_append)
  with x assms(1) have "c < length (heap s) \<and> childOfMap s (page_id (heap s ! c)) \<noteq> None"
    by (simp add: wf_state_def)
  then show ?case by (simp add: alloc_def nth_append)
next
  case (6 c p)
  with assms(1) obtain ca pa where
    "ca < length (heap s)" "pa < length (heap s)" "page_id (heap s ! ca) = c"
    "page_id (heap s ! pa) = p" "ca \<in> set (children (heap s ! pa))"
    unfolding wf_state_def by (simp add: alloc_def) blast
  then show ?case
    by - (rule exI[of _ ca], rule exI[of _ pa], simp add: alloc_def nth_append)
qed

lemma seed_page_alloc:
  assumes "wf_state s"
  shows "seed_page s page =
     (if page_id page \<in> page_id ` set (heap s) then s else alloc s page)"
proof (cases "page_id page \<in> page_id ` set (heap s)")
  case True
  then show ?thesis using assms by (simp add: seed_page_def wf_lookup_None)
next
  case False
  then have "page_id page \<notin> fst ` set (pageMap s)"
    using wf_keys[OF assms] by (metis list.set_map)
  with False show ?thesis
    using assms by (simp add: seed_page_def wf_lookup_None alloc_def update_fresh Let_def)
qed

lemma wf_addr_of:
  assumes "wf_state s" "a < length (heap s)"
  shows "addr_of s (page_id (heap s ! a)) = a"
  using assms wf_lookup[OF assms(1), of "page_id (heap s ! a)" a] by (simp add: addr_of_def)

lemma wf_addr_of_id:
  assumes "wf_state s" "i \<in> page_id ` set (heap s)"
  shows "addr_of s i < length (heap s) \<and> page_id (heap s ! addr_of s i) = i"
proof -
  from assms(2) obtain a where "a < length (heap s)" "page_id (heap s ! a) = i"
    by (auto simp: in_set_conv_nth)
  then show ?thesis using wf_addr_of[OF assms(1), of a] by simp
qed

lemma wf_link:
  assumes "wf_state s" "cur < length (heap s)" "a < length (heap s)"
  shows "wf_state (link cur a s)"
  using wf_set_parent[OF assms] wf_push_kid[OF assms] by (simp add: link_def)

lemma wf_seed_page: "wf_state s \<Longrightarrow> wf_state (seed_page s cd)"
  by (simp add: seed_page_alloc wf_alloc)

lemma ids_registry [simp]: "map page_id (registry s) = map page_id (heap s)"
  by (simp add: registry_def summary_of_def comp_def)

lemma ids_registry_set: "page_id ` set (registry s) = page_id ` set (heap s)"
  using ids_registry[of s] by (metis list.set_map)

lemma registry_seed_page:
  "wf_state s \<Longrightarrow> registry (seed_page s cd) = observe (registry s) cd"
  by (simp add: seed_page_alloc observe_def ids_registry_set)
     (simp add: registry_def alloc_def summary_of_def)

lemma seed_page_known_id:
  assumes "wf_state s"
  shows "page_id cd \<in> page_id ` set (heap (seed_page s cd))"
  using assms by (simp add: seed_page_alloc alloc_def)

lemma seed_page_frame [simp]:
  "head (seed_page s cd) = head s" "calls (seed_page s cd) = calls s"
  "childOfMap (seed_page s cd) = childOfMap s"
  by (simp_all add: seed_page_def Let_def)

lemma seed_page_length: "length (heap s) \<le> length (heap (seed_page s cd))"
  by (simp add: seed_page_def Let_def)

lemma seed_page_nth:
  "a < length (heap s) \<Longrightarrow> heap (seed_page s cd) ! a = heap s ! a"
  by (simp add: seed_page_def Let_def nth_append)

lemma seed_page_kid_ids:
  assumes "wf_state s"
  shows "kid_ids (seed_page s cd) x = kid_ids s x"
proof (cases "page_id cd \<in> page_id ` set (heap s)")
  case True
  then show ?thesis using assms by (simp add: seed_page_alloc)
next
  case False
  have r: "\<forall>c\<in>set (children (heap s ! x)). c < length (heap s)" if "x < length (heap s)"
    using assms that by (simp add: wf_state_def)
  show ?thesis
  proof (cases "x < length (heap s)")
    case True
    with False r show ?thesis
      using assms by (auto simp: seed_page_alloc alloc_def kid_ids_def nth_append)
  next
    case False2: False
    with False show ?thesis
      using assms
      by (cases "x = length (heap s)") (simp_all add: seed_page_alloc alloc_def kid_ids_def)
  qed
qed

subsection \<open>The effect of one fetched child\<close>

lemma process_child_eq:
  assumes "wf_state s" "cur < length (heap s)"
  shows "process_child cur s cd =
     link cur (addr_of (seed_page s cd) (page_id cd)) (seed_page s cd)"
proof (cases "page_id cd \<in> page_id ` set (heap s)")
  case True
  then obtain a where a: "a < length (heap s)" "page_id (heap s ! a) = page_id cd"
    by (auto simp: in_set_conv_nth)
  then have "addr_of s (page_id cd) = a"
    using wf_addr_of[OF assms(1), of a] by simp
  with True a show ?thesis
    using process_child_known[OF assms a] assms(1)
    by (simp add: link_def add_kid_def seed_page_alloc)
next
  case False
  have "length (heap s) \<notin> set (children (heap s ! cur))"
    using assms by (auto simp: wf_state_def)
  moreover have "addr_of (alloc s cd) (page_id cd) = length (heap s)"
    using wf_addr_of[OF wf_alloc[OF assms(1) False], of "length (heap s)"]
    by (simp add: alloc_def)
  ultimately show ?thesis
    using process_child_new[OF assms False] assms False
    by (simp add: link_def alloc_def add_kid_def nth_append seed_page_alloc)
qed

lemma link_frame [simp]:
  "head (link cur a s) = head s" "calls (link cur a s) = calls s"
  "pageMap (link cur a s) = pageMap s" "queue (link cur a s) = queue s"
  "length (heap (link cur a s)) = length (heap s)"
  "page_id (heap (link cur a s) ! x) = page_id (heap s ! x)"
  "title (heap (link cur a s) ! x) = title (heap s ! x)"
  "childOfMap (link cur a s) = (childOfMap s)(page_id (heap s ! a) \<mapsto> page_id (heap s ! cur))"
  by (simp_all add: link_def)

lemma registry_link [simp]: "registry (link cur a s) = registry s"
  by (rule nth_equalityI) (simp_all add: registry_def summary_of_def)

lemma link_kid_ids:
  assumes "cur < length (heap s)"
  shows "kid_ids (link cur a s) x =
     (if x = cur then insert (page_id (heap s ! a)) (kid_ids s cur) else kid_ids s x)"
proof -
  have c: "set (children (heap (link cur a s) ! y)) =
      (if y = cur then insert a (set (children (heap s ! cur))) else set (children (heap s ! y)))"
    for y
    using assms by (auto simp: link_def children_add_kid)
  show ?thesis
    using assms by (simp add: kid_ids_def c)
qed

lemma process_child_wf:
  assumes "wf_state s" "cur < length (heap s)"
  shows "wf_state (process_child cur s cd)"
proof -
  let ?t = "seed_page s cd"
  have t: "wf_state ?t" using assms(1) by (rule wf_seed_page)
  have "cur < length (heap ?t)" using assms(2) seed_page_length[of s cd] by simp
  moreover have "addr_of ?t (page_id cd) < length (heap ?t)"
    using wf_addr_of_id[OF t seed_page_known_id[OF assms(1)]] by simp
  ultimately show ?thesis
    using t by (simp add: process_child_eq[OF assms] wf_link)
qed

lemma process_child_frame:
  assumes "wf_state s" "cur < length (heap s)"
  shows "head (process_child cur s cd) = head s"
    and "calls (process_child cur s cd) = calls s"
    and "length (heap s) \<le> length (heap (process_child cur s cd))"
    and "registry (process_child cur s cd) = observe (registry s) cd"
  using assms seed_page_length[of s cd]
  by (simp_all add: process_child_eq[OF assms] registry_seed_page)

lemma process_child_parent:
  assumes "wf_state s" "cur < length (heap s)"
  shows "childOfMap (process_child cur s cd) =
     (childOfMap s)(page_id cd \<mapsto> page_id (heap s ! cur))"
proof -
  let ?t = "seed_page s cd"
  have t: "wf_state ?t" using assms(1) by (rule wf_seed_page)
  have "page_id (heap ?t ! addr_of ?t (page_id cd)) = page_id cd"
    using wf_addr_of_id[OF t seed_page_known_id[OF assms(1)]] by simp
  then show ?thesis
    using assms(2) by (simp add: process_child_eq[OF assms] seed_page_nth)
qed

lemma process_child_kid_ids:
  assumes "wf_state s" "cur < length (heap s)"
  shows "kid_ids (process_child cur s cd) x =
     (if x = cur then insert (page_id cd) (kid_ids s cur) else kid_ids s x)"
proof -
  let ?t = "seed_page s cd"
  have t: "wf_state ?t" using assms(1) by (rule wf_seed_page)
  have c: "cur < length (heap ?t)" using assms(2) seed_page_length[of s cd] by simp
  have "page_id (heap ?t ! addr_of ?t (page_id cd)) = page_id cd"
    using wf_addr_of_id[OF t seed_page_known_id[OF assms(1)]] by simp
  then show ?thesis
    using assms(1) by (simp add: process_child_eq[OF assms] link_kid_ids[OF c] seed_page_kid_ids)
qed

lemma process_child_id_cur:
  assumes "wf_state s" "cur < length (heap s)"
  shows "page_id (heap (process_child cur s cd) ! cur) = page_id (heap s ! cur)"
  using assms by (simp add: process_child_eq[OF assms] seed_page_nth)

subsection \<open>The loop over the children of one page\<close>

lemma children_loop_rule:
  assumes "wf_state s" "cur < length (heap s)" "P [] s"
    and "\<And>ks t cd. wf_state t \<Longrightarrow> cur < length (heap t) \<Longrightarrow> P ks t \<Longrightarrow>
           P (ks @ [cd]) (process_child cur t cd)"
  shows "wf_state (foldl (process_child cur) s kids) \<and>
         cur < length (heap (foldl (process_child cur) s kids)) \<and>
         P kids (foldl (process_child cur) s kids)"
proof (induction kids rule: rev_induct)
  case Nil
  show ?case using assms(1-3) by simp
next
  case (snoc cd ks)
  let ?t = "foldl (process_child cur) s ks"
  from snoc have t: "wf_state ?t" "cur < length (heap ?t)" "P ks ?t" by simp_all
  have "cur < length (heap (process_child cur ?t cd))"
    using t(2) process_child_frame(3)[OF t(1,2), of cd] by simp
  then show ?case
    using process_child_wf[OF t(1,2)] assms(4)[OF t] by simp
qed

lemma children_loop:
  fixes kids :: "'i page_summary list"
  assumes "wf_state s" "cur < length (heap s)"
  defines "t \<equiv> foldl (process_child cur) s kids"
  shows "wf_state t" and "cur < length (heap t)" and "head t = head s" and "calls t = calls s"
    and "registry t = foldl observe (registry s) kids"
    and "page_id (heap t ! cur) = page_id (heap s ! cur)"
    and "childOfMap t = (\<lambda>c. if c \<in> page_id ` set kids then Some (page_id (heap s ! cur))
           else childOfMap s c)"
    and "kid_ids t = (\<lambda>x. if x = cur then kid_ids s cur \<union> page_id ` set kids else kid_ids s x)"
proof -
  show "wf_state t" "cur < length (heap t)"
    using children_loop_rule[OF assms(1,2), of "\<lambda>_ _. True" kids] by (simp_all add: t_def)
  show "head t = head s"
    using children_loop_rule[OF assms(1,2), of "\<lambda>_ u. head u = head s" kids]
    by (simp add: t_def process_child_frame)
  show "calls t = calls s"
    using children_loop_rule[OF assms(1,2), of "\<lambda>_ u. calls u = calls s" kids]
    by (simp add: t_def process_child_frame)
  show "registry t = foldl observe (registry s) kids"
    using children_loop_rule[OF assms(1,2),
        of "\<lambda>ks u. registry u = foldl observe (registry s) ks" kids]
    by (simp add: t_def process_child_frame)
  show "page_id (heap t ! cur) = page_id (heap s ! cur)"
    using children_loop_rule[OF assms(1,2),
        of "\<lambda>_ u. page_id (heap u ! cur) = page_id (heap s ! cur)" kids]
    by (simp add: t_def process_child_id_cur)
  show "childOfMap t = (\<lambda>c. if c \<in> page_id ` set kids then Some (page_id (heap s ! cur))
           else childOfMap s c)"
    using children_loop_rule[OF assms(1,2),
        of "\<lambda>ks u. page_id (heap u ! cur) = page_id (heap s ! cur) \<and>
              childOfMap u = (\<lambda>c. if c \<in> page_id ` set ks then Some (page_id (heap s ! cur))
                else childOfMap s c)" kids]
    by (auto simp: t_def process_child_id_cur process_child_parent fun_eq_iff)
  show "kid_ids t = (\<lambda>x. if x = cur then kid_ids s cur \<union> page_id ` set kids else kid_ids s x)"
    using children_loop_rule[OF assms(1,2),
        of "\<lambda>ks u. kid_ids u =
              (\<lambda>x. if x = cur then kid_ids s cur \<union> page_id ` set ks else kid_ids s x)" kids]
    by (auto simp: t_def process_child_kid_ids fun_eq_iff)
qed

subsection \<open>The invariant of the work loop\<close>

lemma run_invD:
  assumes "run_inv initialPages fetchChildren s"
  shows "wf_state s" and "head s \<le> length (heap s)"
    and "calls s = map page_id (take (head s) (heap s))"
    and "registry s = foldl observe [] (observed initialPages fetchChildren (calls s))"
    and "childOfMap s = last_parent fetchChildren (calls s)"
    and "kid_ids s x =
        (if x < head s then child_ids fetchChildren (page_id (heap s ! x)) else {})"
    and "i \<in> set (calls s) \<Longrightarrow> \<exists>kids. fetchChildren i = Inr kids"
  using assms unfolding run_inv_def by blast+

lemma observe_extends: "\<exists>ext. foldl observe reg ps = reg @ ext"
proof (induction ps arbitrary: reg)
  case Nil
  show ?case by simp
next
  case (Cons p ps)
  from Cons[of "observe reg p"] show ?case by (auto simp: observe_def)
qed

lemma observe_ids: "page_id ` set (foldl observe reg ps) = page_id ` set reg \<union> page_id ` set ps"
  by (induction ps arbitrary: reg) (auto simp: observe_def)

lemma wf_init: "wf_state init_state"
  by (simp add: wf_state_def init_state_def)

lemma wf_foldl_seed:
  "wf_state s \<Longrightarrow> wf_state (foldl seed_page s ps) \<and>
     registry (foldl seed_page s ps) = foldl observe (registry s) ps \<and>
     head (foldl seed_page s ps) = head s \<and> calls (foldl seed_page s ps) = calls s \<and>
     childOfMap (foldl seed_page s ps) = childOfMap s \<and>
     kid_ids (foldl seed_page s ps) = kid_ids s"
proof (induction ps arbitrary: s)
  case Nil
  then show ?case by simp
next
  case (Cons p ps)
  from Cons.IH[OF wf_seed_page[OF Cons.prems, of p]] Cons.prems
  show ?case by (simp add: registry_seed_page seed_page_kid_ids fun_eq_iff)
qed

lemma seed_inv: "run_inv initialPages fetchChildren (seed initialPages)"
proof -
  have i: "kid_ids init_state = (\<lambda>x. {})" "registry init_state = []" "head init_state = 0"
    "calls init_state = []" "childOfMap init_state = Map.empty"
    by (simp_all add: kid_ids_def registry_def init_state_def fun_eq_iff)
  let ?s = "foldl seed_page init_state initialPages"
  have "wf_state ?s" "registry ?s = foldl observe [] initialPages" "head ?s = 0"
    "calls ?s = []" "childOfMap ?s = Map.empty" "kid_ids ?s = (\<lambda>x. {})"
    using wf_foldl_seed[OF wf_init, of initialPages] by (simp_all add: i)
  then show ?thesis
    by (simp add: run_inv_def seed_def observed_def last_parent_def fun_eq_iff)
qed

lemma wf_dequeue: "wf_state s \<Longrightarrow> wf_state (dequeue s)"
  by (simp add: wf_state_def dequeue_def)

lemma wf_current:
  assumes "wf_state s" "head s < length (queue s)"
  shows "queue s ! head s = head s" and "head s < length (heap s)"
    and "current_id s = page_id (heap s ! head s)"
  using assms by (simp_all add: wf_state_def current_id_def)

lemma process_page_props:
  fixes kids :: "'i page_summary list"
  assumes "wf_state s" "head s < length (queue s)"
  defines "t \<equiv> process_page s kids"
  shows "wf_state t" and "head t = Suc (head s)" and "calls t = calls s @ [current_id s]"
    and "registry t = foldl observe (registry s) kids"
    and "childOfMap t =
           (\<lambda>c. if c \<in> page_id ` set kids then Some (current_id s) else childOfMap s c)"
    and "kid_ids t =
           (\<lambda>x. if x = head s then kid_ids s (head s) \<union> page_id ` set kids else kid_ids s x)"
proof -
  let ?d = "dequeue s"
  have d: "wf_state ?d" "head s < length (heap ?d)"
    using wf_dequeue[OF assms(1)] wf_current(2)[OF assms(1,2)] by (simp_all add: dequeue_def)
  have t: "t = foldl (process_child (head s)) ?d kids"
    by (simp add: t_def process_page_def wf_current(1)[OF assms(1,2)])
  have e: "registry ?d = registry s" "kid_ids ?d = kid_ids s" "childOfMap ?d = childOfMap s"
    "heap ?d = heap s"
    by (simp_all add: dequeue_def registry_def kid_ids_def fun_eq_iff)
  show "wf_state t" unfolding t by (rule children_loop(1)[OF d])
  show "head t = Suc (head s)" unfolding t children_loop(3)[OF d] by (simp add: dequeue_def)
  show "calls t = calls s @ [current_id s]"
    unfolding t children_loop(4)[OF d] by (simp add: dequeue_def)
  show "registry t = foldl observe (registry s) kids"
    unfolding t children_loop(5)[OF d] e ..
  show "childOfMap t =
           (\<lambda>c. if c \<in> page_id ` set kids then Some (current_id s) else childOfMap s c)"
    unfolding t children_loop(7)[OF d] e wf_current(3)[OF assms(1,2)] ..
  show "kid_ids t =
           (\<lambda>x. if x = head s then kid_ids s (head s) \<union> page_id ` set kids else kid_ids s x)"
    unfolding t children_loop(8)[OF d] e ..
qed

lemma registry_prefix:
  assumes "registry t = foldl observe (registry s) kids"
  shows "length (heap s) \<le> length (heap t)"
    and "x < length (heap s) \<Longrightarrow> page_id (heap t ! x) = page_id (heap s ! x)"
    and "x < length (heap s) \<Longrightarrow> title (heap t ! x) = title (heap s ! x)"
    and "n \<le> length (heap s) \<Longrightarrow> map page_id (take n (heap t)) = map page_id (take n (heap s))"
proof -
  obtain ext where e: "registry t = registry s @ ext"
    using observe_extends[of "registry s" kids] assms by auto
  have l: "length (registry u) = length (heap u)" for u :: "'i build_state"
    by (simp add: registry_def)
  show len: "length (heap s) \<le> length (heap t)"
    using arg_cong[OF e, of length] by (simp add: l)
  have n: "registry t ! x = registry s ! x" if "x < length (heap s)" for x
    using that by (simp add: e nth_append l)
  have r: "registry u ! x = summary_of (heap u ! x)" if "x < length (heap u)"
    for u :: "'i build_state" and x
    using that by (simp add: registry_def)
  have s: "summary_of (heap t ! x) = summary_of (heap s ! x)" if "x < length (heap s)" for x
    using n[OF that] r[of x s] r[of x t] that len by simp
  show "page_id (heap t ! x) = page_id (heap s ! x)" if "x < length (heap s)"
    using arg_cong[OF s[OF that], of page_id] by (simp add: summary_of_def)
  show "title (heap t ! x) = title (heap s ! x)" if "x < length (heap s)"
    using arg_cong[OF s[OF that], of title] by (simp add: summary_of_def)
  show "map page_id (take n (heap t)) = map page_id (take n (heap s))" if "n \<le> length (heap s)"
  proof -
    have "map page_id (take n (heap t)) = take n (map page_id (registry t))"
      by (simp add: take_map)
    also have "\<dots> = take n (map page_id (registry s))"
      using that by (simp add: e l)
    finally show ?thesis by (simp add: take_map)
  qed
qed

lemma last_parent_snoc:
  "last_parent f (tr @ [p]) =
     (\<lambda>c. if c \<in> child_ids f p then Some p else last_parent f tr c)"
  by (simp add: last_parent_def fun_eq_iff)

lemma step_inv:
  assumes "run_inv initialPages fetchChildren s" "head s < length (queue s)"
    and "fetchChildren (current_id s) = Inr kids"
  shows "run_inv initialPages fetchChildren (process_page s kids)"
proof -
  let ?t = "process_page s kids"
  note inv = run_invD[OF assms(1)]
  have w: "wf_state s" by (rule inv(1))
  note p = process_page_props[OF w assms(2), of kids]
  note c = wf_current[OF w assms(2)]
  note r = registry_prefix[OF p(4)]
  have k: "kids_of fetchChildren (current_id s) = kids"
    using assms(3) by (simp add: kids_of_def)
  have ci: "child_ids fetchChildren (current_id s) = page_id ` set kids"
    by (simp add: child_ids_def k)
  have 1: "head ?t \<le> length (heap ?t)"
    using p(2) c(2) r(1) by simp
  have 2: "calls ?t = map page_id (take (head ?t) (heap ?t))"
  proof -
    have "map page_id (take (Suc (head s)) (heap ?t)) = map page_id (take (Suc (head s)) (heap s))"
      using c(2) by (intro r(4)) simp
    also have "\<dots> = map page_id (take (head s) (heap s)) @ [page_id (heap s ! head s)]"
      using c(2) by (simp add: take_Suc_conv_app_nth)
    finally show ?thesis
      by (simp add: p(2,3) c(3) inv(3))
  qed
  have 3: "registry ?t = foldl observe [] (observed initialPages fetchChildren (calls ?t))"
    by (simp add: p(3,4) inv(4) observed_def k)
  have 4: "childOfMap ?t = last_parent fetchChildren (calls ?t)"
    unfolding p(3,5) last_parent_snoc ci inv(5) ..
  have 5: "kid_ids ?t x =
        (if x < head ?t then child_ids fetchChildren (page_id (heap ?t ! x)) else {})" for x
  proof -
    have old: "kid_ids s y = (if y < head s then child_ids fetchChildren (page_id (heap s ! y)) else {})"
      for y by (rule inv(6))
    show ?thesis
    proof (cases "x < head s")
      case True
      then have "page_id (heap ?t ! x) = page_id (heap s ! x)" using c(2) by (intro r(2)) simp
      with True show ?thesis by (simp add: p(2,6) old)
    next
      case False
      have h: "page_id (heap ?t ! head s) = current_id s" using c(2,3) r(2) by simp
      show ?thesis
      proof (cases "x = head s")
        case True
        then show ?thesis by (simp add: p(2,6) old ci h)
      next
        case ne: False
        with False show ?thesis by (simp add: p(2,6) old)
      qed
    qed
  qed
  have 6: "\<forall>i\<in>set (calls ?t). \<exists>kids. fetchChildren i = Inr kids"
    using assms(3) inv(7) by (auto simp: p(3))
  show ?thesis
    unfolding run_inv_def using p(1) 1 2 3 4 5 6 by blast
qed

subsection \<open>The loop and the states it reaches\<close>

lemma reaches_inv:
  assumes "reaches fetchChildren s t" "run_inv initialPages fetchChildren s"
  shows "run_inv initialPages fetchChildren t"
  using assms by (induction rule: reaches.induct) (auto intro: step_inv)

lemma reaches_trans:
  assumes "reaches f t u" "reaches f s t"
  shows "reaches f s u"
  using assms by (induction rule: reaches.induct) (auto intro: reaches.intros)

lemma reaches_first:
  assumes "head s < length (queue s)" "f (current_id s) = Inr kids"
    and "reaches f (process_page s kids) u"
  shows "reaches f s u"
  using reaches_trans[OF assms(3) reaches.visit[OF reaches.start[of f s] assms(1,2)]] .

lemma loop_reaches:
  assumes "reaches f s t"
  shows "loop f s = loop f t"
  using assms
proof (induction rule: reaches.induct)
  case start
  show ?case ..
next
  case (visit t kids)
  then show ?case by (simp add: loop.simps[of f t])
qed

lemma loop_result:
  assumes "loop f s = Some r"
  shows "\<exists>t. reaches f s t \<and>
    (case r of
       Inr u \<Rightarrow> u = t \<and> \<not> head t < length (queue t)
     | Inl (e, tr) \<Rightarrow> head t < length (queue t) \<and> f (current_id t) = Inl e \<and>
         tr = calls t @ [current_id t])"
  using assms
proof (induction f s r rule: loop.raw_induct[rotated 1, consumes 1, case_names step])
  case (step lp f s r)
  show ?case
  proof (cases "head s < length (queue s)")
    case False
    with step(2) have "r = Inr s" by simp
    with False show ?thesis by (auto intro: reaches.start)
  next
    case True
    show ?thesis
    proof (cases "f (current_id s)")
      case (Inl e)
      with True step(2) have "r = Inl (e, calls s @ [current_id s])"
        by (simp add: dequeue_def)
      with True Inl show ?thesis by (auto intro!: exI[of _ s] reaches.start)
    next
      case (Inr kids)
      with True step(2) have "lp f (process_page s kids) = Some r" by simp
      from step(1)[OF this] obtain t where
        t: "reaches f (process_page s kids) t"
        "(case r of
           Inr u \<Rightarrow> u = t \<and> \<not> head t < length (queue t)
         | Inl (e, tr) \<Rightarrow> head t < length (queue t) \<and> f (current_id t) = Inl e \<and>
             tr = calls t @ [current_id t])"
        by blast
      from reaches_first[OF True Inr t(1)] t(2) show ?thesis by blast
    qed
  qed
qed

section \<open>Runs that return\<close>

lemma run_final:
  assumes "loop f (seed initialPages) = Some (Inr s)"
  shows "run_inv initialPages f s" and "head s = length (heap s)"
    and "reaches f (seed initialPages) s"
proof -
  from loop_result[OF assms] have r: "reaches f (seed initialPages) s"
    and h: "\<not> head s < length (queue s)" by auto
  show "reaches f (seed initialPages) s" by (rule r)
  show i: "run_inv initialPages f s" using reaches_inv[OF r seed_inv] .
  have "length (queue s) = length (heap s)"
    using run_invD(1)[OF i] by (simp add: wf_state_def)
  with h run_invD(2)[OF i] show "head s = length (heap s)" by simp
qed

lemma build_Inr:
  "buildPageTree initialPages f = Some (Inr F) \<longleftrightarrow>
     (\<exists>s. loop f (seed initialPages) = Some (Inr s) \<and> F = forest_of s)"
  by (auto simp: buildPageTree_def split: option.splits sum.splits)

lemma build_forest_of:
  "loop f (seed initialPages) = Some (Inr s) \<Longrightarrow>
     buildPageTree initialPages f = Some (Inr (forest_of s))"
  by (simp add: buildPageTree_def)

lemma wf_roots:
  assumes "wf_state s"
  shows "rootPages s = filter (\<lambda>a. childOfMap s (page_id (heap s ! a)) = None) [0..<length (heap s)]"
  by (simp add: rootPages_def wf_vals[OF assms])

lemma in_forest_bound:
  assumes "wf_state s" "in_forest (forest_of s) a"
  shows "a < length (heap s)"
  using assms(2)
proof (induction rule: in_forest.induct)
  case (root a)
  then show ?case by (simp add: forest_of_def wf_roots[OF assms(1)])
next
  case (child p a)
  then show ?case using assms(1) by (simp add: forest_of_def wf_state_def)
qed

lemma wf_kid_ids_distinct:
  assumes "wf_state s" "a < length (heap s)"
  shows "distinct (map (\<lambda>c. page_id (heap s ! c)) (children (heap s ! a)))"
proof -
  have d: "distinct (children (heap s ! a))"
    and r: "\<forall>c\<in>set (children (heap s ! a)). c < length (heap s)"
    using assms by (simp_all add: wf_state_def)
  have i: "distinct (map page_id (heap s))" using assms(1) by (simp add: wf_state_def)
  have "inj_on (\<lambda>c. page_id (heap s ! c)) (set (children (heap s ! a)))"
  proof (rule inj_onI)
    fix x y
    assume "x \<in> set (children (heap s ! a))" "y \<in> set (children (heap s ! a))"
      and "page_id (heap s ! x) = page_id (heap s ! y)"
    with r i show "x = y" by (auto simp: distinct_conv_nth)
  qed
  with d show ?thesis by (simp add: distinct_map)
qed

lemma count_list_distinct:
  "distinct xs \<Longrightarrow> count_list xs x = (if x \<in> set xs then 1 else 0)"
  by (induction xs) auto

lemma twice_listed_run:
  "loop twice_listed (seed twice_listed_pages) = Some (Inr twice_listed_final)"
  by (simp add: loop.simps seed_def seed_page_def init_state_def process_page_def
      process_child_def dequeue_def current_id_def new_node_def twice_listed_def
      twice_listed_pages_def twice_listed_final_def pg_def)

lemma twice_listed_build:
  "buildPageTree twice_listed_pages twice_listed = Some (Inr (forest_of twice_listed_final))"
  by (simp add: buildPageTree_def twice_listed_run)

lemma twice_listed_forest:
  "forest_of twice_listed_final =
     \<lparr>nodes = [\<lparr>page_id = 1, title = ''A'', children = [2, 1]\<rparr>,
               \<lparr>page_id = 3, title = ''C'', children = []\<rparr>,
               \<lparr>page_id = 2, title = ''B'', children = []\<rparr>], roots = [0]\<rparr>"
  by (simp add: forest_of_def rootPages_def twice_listed_final_def)

text \<open>
  C5. In a forest that \<open>buildPageTree\<close> returns, the \<^verbatim>\<open>children\<close> array of every
  object (a root or a descendant) holds no two entries with the same id; and a child
  that \<^verbatim>\<open>fetchChildren\<close> returned for the page, however often, occurs exactly once
  in the array.
\<close>

theorem children_without_duplicates:
  assumes "buildPageTree initialPages fetchChildren = Some (Inr F)" and "in_forest F a"
  shows "distinct (map (\<lambda>c. page_id (nodes F ! c)) (children (nodes F ! a))) \<and>
    (k \<in> set (kids_of fetchChildren (page_id (nodes F ! a))) \<longrightarrow>
       count_list (map (\<lambda>c. page_id (nodes F ! c)) (children (nodes F ! a))) (page_id k) = 1)"
proof -
  from assms(1) obtain s where s: "loop fetchChildren (seed initialPages) = Some (Inr s)"
    and F: "F = forest_of s" by (auto simp: build_Inr)
  note inv = run_invD[OF run_final(1)[OF s]]
  have a: "a < length (heap s)" using in_forest_bound[OF inv(1)] assms(2) F by simp
  have d: "distinct (map (\<lambda>c. page_id (heap s ! c)) (children (heap s ! a)))"
    by (rule wf_kid_ids_distinct[OF inv(1) a])
  have "kid_ids s a = child_ids fetchChildren (page_id (heap s ! a))"
    using inv(6)[of a] a run_final(2)[OF s] by simp
  then have "set (map (\<lambda>c. page_id (heap s ! c)) (children (heap s ! a))) =
      page_id ` set (kids_of fetchChildren (page_id (heap s ! a)))"
    using a by (simp add: kid_ids_def child_ids_def)
  with d show ?thesis
    unfolding F forest_of_def by (simp add: count_list_distinct del: set_map)
qed

theorem children_without_duplicates_witness:
  "buildPageTree twice_listed_pages twice_listed = Some (Inr (forest_of twice_listed_final)) \<and>
   in_forest (forest_of twice_listed_final) 0 \<and>
   pg 2 ''B2'' \<in> set (kids_of twice_listed (page_id (nodes (forest_of twice_listed_final) ! 0))) \<and>
   distinct (map (\<lambda>c. page_id (nodes (forest_of twice_listed_final) ! c))
      (children (nodes (forest_of twice_listed_final) ! 0))) \<and>
   count_list (map (\<lambda>c. page_id (nodes (forest_of twice_listed_final) ! c))
      (children (nodes (forest_of twice_listed_final) ! 0))) (page_id (pg 2 ''B2'')) = 1"
proof -
  have r: "in_forest (forest_of twice_listed_final) 0"
    by (rule in_forest.root) (simp add: twice_listed_forest)
  have k: "pg 2 ''B2'' \<in> set (kids_of twice_listed (page_id (nodes (forest_of twice_listed_final) ! 0)))"
    by (simp add: twice_listed_forest kids_of_def twice_listed_def)
  from children_without_duplicates[OF twice_listed_build r, of "pg 2 ''B2''"] k r
  show ?thesis using twice_listed_build by blast
qed

section \<open>Roots and fields\<close>

lemma last_parent_None:
  "last_parent f tr c = None \<longleftrightarrow> c \<notin> \<Union> (child_ids f ` set tr)"
  by (auto simp: last_parent_def find_None_iff)

lemma find_SomeD: "find P xs = Some x \<Longrightarrow> x \<in> set xs \<and> P x"
  by (induction xs) (auto split: if_splits)

lemma last_parent_Some:
  assumes "last_parent f tr c = Some p"
  shows "p \<in> set tr" and "c \<in> child_ids f p"
  using find_SomeD[OF assms[unfolded last_parent_def]] by simp_all

lemma dom_last_parent: "dom (last_parent f tr) = \<Union> (child_ids f ` set tr)"
  using last_parent_None[of f tr] by (auto simp: dom_def)

lemma observed_ids:
  "page_id ` set (observed initialPages f tr) =
     page_id ` set initialPages \<union> \<Union> (child_ids f ` set tr)"
  by (auto simp: observed_def child_ids_def)

lemma final_ids:
  assumes "run_inv initialPages f s"
  shows "page_id ` set (heap s) = page_id ` set (observed initialPages f (calls s))"
proof -
  have "page_id ` set (heap s) = page_id ` set (registry s)"
    by (simp add: ids_registry_set)
  also have "\<dots> = page_id ` set (observed initialPages f (calls s))"
    by (simp add: run_invD(4)[OF assms] observe_ids)
  finally show ?thesis .
qed

lemma wf_root_iff:
  assumes "wf_state s"
  shows "a \<in> set (roots (forest_of s)) \<longleftrightarrow>
     a < length (heap s) \<and> childOfMap s (page_id (heap s ! a)) = None"
  by (auto simp: forest_of_def wf_roots[OF assms])

text \<open>
  C6. When the queue has drained, an object is in the returned root set if and only if
  its id is no key of \<open>childOfMap\<close>; the keys of \<open>childOfMap\<close> are the ids that some
  request returned as children; so a page of \<open>initialPages\<close> that a request returned
  as a child is not a root. Here \<open>s\<close> is the state in which the loop ends, and
  \<open>forest_of s\<close> is what \<open>buildPageTree\<close> returns.
\<close>

theorem roots_iff_no_recorded_parent:
  assumes "loop fetchChildren (seed initialPages) = Some (Inr s)"
  shows "buildPageTree initialPages fetchChildren = Some (Inr (forest_of s)) \<and>
         (a \<in> set (roots (forest_of s)) \<longleftrightarrow>
            a < length (heap s) \<and> page_id (heap s ! a) \<notin> dom (childOfMap s)) \<and>
         dom (childOfMap s) = \<Union> (child_ids fetchChildren ` set (calls s)) \<and>
         (p \<in> set initialPages \<and> page_id (heap s ! a) = page_id p \<and> q \<in> set (calls s) \<and>
            page_id p \<in> child_ids fetchChildren q \<longrightarrow> a \<notin> set (roots (forest_of s)))"
proof -
  note inv = run_invD[OF run_final(1)[OF assms]]
  have 1: "a \<in> set (roots (forest_of s)) \<longleftrightarrow>
            a < length (heap s) \<and> page_id (heap s ! a) \<notin> dom (childOfMap s)"
    by (auto simp: wf_root_iff[OF inv(1)])
  have 2: "dom (childOfMap s) = \<Union> (child_ids fetchChildren ` set (calls s))"
    by (simp only: inv(5) dom_last_parent)
  from 1 2 build_forest_of[OF assms] show ?thesis by auto
qed

theorem roots_iff_no_recorded_parent_witness:
  "loop twice_listed (seed twice_listed_pages) = Some (Inr twice_listed_final) \<and>
   pg 3 ''C'' \<in> set twice_listed_pages \<and>
   page_id (heap twice_listed_final ! 1) = page_id (pg 3 ''C'') \<and>
   1 \<in> set (calls twice_listed_final) \<and> page_id (pg 3 ''C'') \<in> child_ids twice_listed 1 \<and>
   1 \<notin> set (roots (forest_of twice_listed_final)) \<and>
   0 \<in> set (roots (forest_of twice_listed_final)) \<and>
   page_id (heap twice_listed_final ! 0) \<notin> dom (childOfMap twice_listed_final) \<and>
   dom (childOfMap twice_listed_final) = \<Union> (child_ids twice_listed ` set (calls twice_listed_final))"
proof -
  have h: "pg 3 ''C'' \<in> set twice_listed_pages"
    "page_id (heap twice_listed_final ! 1) = page_id (pg 3 ''C'')"
    "1 \<in> set (calls twice_listed_final)" "page_id (pg 3 ''C'') \<in> child_ids twice_listed 1"
    by (simp_all add: twice_listed_pages_def twice_listed_final_def pg_def child_ids_def
        kids_of_def twice_listed_def)
  have r: "0 \<in> set (roots (forest_of twice_listed_final))"
    by (simp add: twice_listed_forest)
  from roots_iff_no_recorded_parent[OF twice_listed_run, of 1 "pg 3 ''C''" 1] h
  have a: "1 \<notin> set (roots (forest_of twice_listed_final))"
    and d: "dom (childOfMap twice_listed_final) =
      \<Union> (child_ids twice_listed ` set (calls twice_listed_final))" by blast+
  from roots_iff_no_recorded_parent[OF twice_listed_run, of 0] r
  have "page_id (heap twice_listed_final ! 0) \<notin> dom (childOfMap twice_listed_final)" by blast
  with twice_listed_run h a d r show ?thesis by blast
qed

text \<open>
  C9. Every root of a returned forest carries an id of \<open>initialPages\<close>: an object
  allocated for a fetched child has its parent recorded in the same iteration, and
  \<open>childOfMap\<close> never loses a key.
\<close>

theorem roots_come_from_initial_pages:
  assumes "buildPageTree initialPages fetchChildren = Some (Inr F)" and "a \<in> set (roots F)"
  shows "page_id (nodes F ! a) \<in> page_id ` set initialPages"
proof -
  from assms(1) obtain s where s: "loop fetchChildren (seed initialPages) = Some (Inr s)"
    and F: "F = forest_of s" by (auto simp: build_Inr)
  note i = run_final(1)[OF s]
  note inv = run_invD[OF i]
  from assms(2) have a: "a < length (heap s)" "childOfMap s (page_id (heap s ! a)) = None"
    unfolding F by (simp_all add: wf_root_iff[OF inv(1)])
  have "last_parent fetchChildren (calls s) (page_id (heap s ! a)) = None"
    using a(2) by (simp only: inv(5))
  then have n: "page_id (heap s ! a) \<notin> \<Union> (child_ids fetchChildren ` set (calls s))"
    by (rule iffD1[OF last_parent_None])
  have "page_id (heap s ! a) \<in> page_id ` set (heap s)"
    using a(1) by simp
  then have "page_id (heap s ! a) \<in>
      page_id ` set initialPages \<union> \<Union> (child_ids fetchChildren ` set (calls s))"
    by (simp only: final_ids[OF i] observed_ids)
  with n have "page_id (heap s ! a) \<in> page_id ` set initialPages" by blast
  then show ?thesis by (simp add: F forest_of_def)
qed

theorem roots_come_from_initial_pages_witness:
  "buildPageTree twice_listed_pages twice_listed = Some (Inr (forest_of twice_listed_final)) \<and>
   0 \<in> set (roots (forest_of twice_listed_final)) \<and>
   page_id (nodes (forest_of twice_listed_final) ! 0) \<in> page_id ` set twice_listed_pages"
proof -
  have r: "0 \<in> set (roots (forest_of twice_listed_final))"
    by (simp add: twice_listed_forest)
  from roots_come_from_initial_pages[OF twice_listed_build r] r twice_listed_build
  show ?thesis by blast
qed

lemma observe_first:
  assumes "x \<in> set (foldl observe reg ps)"
  shows "if page_id x \<in> page_id ` set reg then x \<in> set reg
         else find (\<lambda>p. page_id p = page_id x) ps = Some x"
  using assms
proof (induction ps arbitrary: reg)
  case Nil
  then show ?case by auto
next
  case (Cons p ps)
  show ?case
  proof (cases "page_id p \<in> page_id ` set reg")
    case True
    then have "observe reg p = reg" by (simp add: observe_def)
    with Cons.prems have "x \<in> set (foldl observe reg ps)" by simp
    from Cons.IH[OF this] True show ?thesis by (auto split: if_splits)
  next
    case False
    then have "observe reg p = reg @ [p]" by (simp add: observe_def)
    with Cons.prems have "x \<in> set (foldl observe (reg @ [p]) ps)" by simp
    note IH = Cons.IH[OF this]
    show ?thesis
    proof (cases "page_id x \<in> page_id ` set reg")
      case True
      with IH have "x \<in> set reg \<or> x = p" by (auto split: if_splits)
      with True False show ?thesis by auto
    next
      case nx: False
      show ?thesis
      proof (cases "page_id p = page_id x")
        case True
        with IH nx have "x = p" by (auto split: if_splits)
        with nx show ?thesis by simp
      next
        case ne: False
        with IH nx have "find (\<lambda>p. page_id p = page_id x) ps = Some x"
          by (auto split: if_splits)
        with nx ne show ?thesis by simp
      qed
    qed
  qed
qed

text \<open>
  C10. The id and title of every object of the returned store are those of the first
  summary with that id among everything observed (the initial pages, then the answers
  in the order of the requests), and no two objects carry the same id: a later summary
  with a known id, be it a repeated entry of \<open>initialPages\<close>, changes nothing.
\<close>

theorem fields_from_first_summary:
  assumes "loop fetchChildren (seed initialPages) = Some (Inr s)"
    and "a < length (nodes (forest_of s))"
  shows "buildPageTree initialPages fetchChildren = Some (Inr (forest_of s)) \<and>
         find (\<lambda>p. page_id p = page_id (nodes (forest_of s) ! a))
           (observed initialPages fetchChildren (calls s)) = Some (summary_of (nodes (forest_of s) ! a)) \<and>
         distinct (map page_id (nodes (forest_of s)))"
proof -
  note inv = run_invD[OF run_final(1)[OF assms(1)]]
  from assms(2) have a: "a < length (heap s)" by (simp add: forest_of_def)
  then have "summary_of (heap s ! a) \<in> set (registry s)"
    by (simp add: registry_def)
  from observe_first[OF this[unfolded inv(4)]]
  have "find (\<lambda>p. page_id p = page_id (summary_of (heap s ! a)))
           (observed initialPages fetchChildren (calls s)) = Some (summary_of (heap s ! a))"
    by simp
  moreover have "distinct (map page_id (heap s))" using inv(1) by (simp add: wf_state_def)
  ultimately show ?thesis
    using build_forest_of[OF assms(1)] by (simp add: forest_of_def summary_of_def)
qed

theorem fields_from_first_summary_witness:
  "loop twice_listed (seed twice_listed_pages) = Some (Inr twice_listed_final) \<and>
   2 < length (nodes (forest_of twice_listed_final)) \<and>
   find (\<lambda>p. page_id p = 2) (observed twice_listed_pages twice_listed (calls twice_listed_final))
     = Some (pg 2 ''B'') \<and>
   observed twice_listed_pages twice_listed (calls twice_listed_final) =
     [pg 1 ''A'', pg 3 ''C'', pg 1 ''A2'', pg 2 ''B'', pg 2 ''B2'', pg 3 ''C2''] \<and>
   summary_of (nodes (forest_of twice_listed_final) ! 2) = pg 2 ''B'' \<and>
   distinct (map page_id (nodes (forest_of twice_listed_final)))"
proof -
  have l: "2 < length (nodes (forest_of twice_listed_final))"
    by (simp add: twice_listed_forest)
  have n: "summary_of (nodes (forest_of twice_listed_final) ! 2) = pg 2 ''B''"
    "page_id (nodes (forest_of twice_listed_final) ! 2) = 2"
    by (simp_all add: twice_listed_forest summary_of_def pg_def)
  have o: "observed twice_listed_pages twice_listed (calls twice_listed_final) =
     [pg 1 ''A'', pg 3 ''C'', pg 1 ''A2'', pg 2 ''B'', pg 2 ''B2'', pg 3 ''C2'']"
    by (simp add: observed_def twice_listed_pages_def twice_listed_final_def kids_of_def
        twice_listed_def)
  from fields_from_first_summary[OF twice_listed_run l] twice_listed_run l o
  show ?thesis unfolding n by simp
qed

section \<open>Objects, ids and the forest\<close>

lemma wf_parent_edge:
  assumes "wf_state s" "a < length (heap s)" "childOfMap s (page_id (heap s ! a)) = Some p"
  shows "\<exists>pa<length (heap s). page_id (heap s ! pa) = p \<and> a \<in> set (children (heap s ! pa))"
proof -
  from assms(1,3) obtain ca pa where
    c: "ca < length (heap s)" "pa < length (heap s)" "page_id (heap s ! ca) = page_id (heap s ! a)"
    "page_id (heap s ! pa) = p" "ca \<in> set (children (heap s ! pa))"
    unfolding wf_state_def by blast
  have "distinct (map page_id (heap s))" using assms(1) by (simp add: wf_state_def)
  with c(1,3) assms(2) have "ca = a" by (auto simp: distinct_conv_nth)
  with c show ?thesis by blast
qed

lemma acyclic_forest_complete:
  assumes "run_inv initialPages f s" and "acyclic (child_edges f (calls s))"
    and "a < length (heap s)"
  shows "in_forest (forest_of s) a"
proof -
  note inv = run_invD[OF assms(1)]
  let ?E = "child_edges f (calls s)"
  have "?E \<subseteq> set (calls s) \<times> page_id ` set (observed initialPages f (calls s))"
    by (auto simp: child_edges_def observed_ids)
  then have "finite ?E" by (rule finite_subset) simp
  then have w: "wf ?E" using assms(2) by (rule finite_acyclic_wf)
  have "\<forall>a<length (heap s). page_id (heap s ! a) = i \<longrightarrow> in_forest (forest_of s) a" for i
  proof (induction i rule: wf_induct_rule[OF w])
    case (1 i)
    show ?case
    proof (intro allI impI)
      fix a assume a: "a < length (heap s)" "page_id (heap s ! a) = i"
      show "in_forest (forest_of s) a"
      proof (cases "childOfMap s i")
        case None
        with a show ?thesis
          by (intro in_forest.root) (simp add: wf_root_iff[OF inv(1)])
      next
        case (Some p)
        with a wf_parent_edge[OF inv(1) a(1)] obtain pa where
          pa: "pa < length (heap s)" "page_id (heap s ! pa) = p" "a \<in> set (children (heap s ! pa))"
          by auto
        from Some have "last_parent f (calls s) i = Some p" by (simp only: inv(5))
        from last_parent_Some[OF this] have "(p, i) \<in> ?E" by (simp add: child_edges_def)
        from 1[OF this] pa have "in_forest (forest_of s) pa" by simp
        then show ?thesis
          by (rule in_forest.child) (simp add: forest_of_def pa(3))
      qed
    qed
  qed
  with assms(3) show ?thesis by blast
qed

lemma final_count:
  assumes "run_inv initialPages f s"
  shows "length (heap s) = card (page_id ` set (observed initialPages f (calls s)))"
proof -
  have "distinct (map page_id (heap s))"
    using run_invD(1)[OF assms] by (simp add: wf_state_def)
  then have "card (set (map page_id (heap s))) = length (heap s)"
    using distinct_card[of "map page_id (heap s)"] by simp
  then show ?thesis using final_ids[OF assms] by simp
qed

lemma no_roots_no_forest: "roots F = [] \<Longrightarrow> forest_objects F = {}"
proof -
  assume r: "roots F = []"
  have "\<not> in_forest F a" for a
  proof
    assume "in_forest F a"
    then show False by (induction rule: in_forest.induct) (simp_all add: r)
  qed
  then show ?thesis by (simp add: forest_objects_def)
qed

lemma two_cycle_build:
  "buildPageTree [pg 1 ''A''] two_cycle = Some (Inr two_cycle_forest)"
  by (simp add: buildPageTree_def loop.simps seed_def seed_page_def init_state_def
      process_page_def process_child_def dequeue_def current_id_def new_node_def
      two_cycle_def forest_of_def rootPages_def pg_def two_cycle_forest_def)

lemma two_cycle_forest_empty: "forest_objects two_cycle_forest = {}"
  by (rule no_roots_no_forest) (simp add: two_cycle_forest_def)

text \<open>
  C3, as stated, fails when the remote data has a cycle: pages 1 and 2, reported as
  children of each other, are both observed, but the returned forest holds no object.
\<close>

theorem forest_size_counterexample:
  "buildPageTree [pg 1 ''A''] two_cycle = Some (Inr two_cycle_forest) \<and>
   card (forest_objects two_cycle_forest) = 0 \<and>
   card (page_id ` set (observed [pg 1 ''A''] two_cycle [1, 2])) = 2"
proof (intro conjI)
  show "buildPageTree [pg 1 ''A''] two_cycle = Some (Inr two_cycle_forest)"
    by (rule two_cycle_build)
  show "card (forest_objects two_cycle_forest) = 0"
    by (simp add: two_cycle_forest_empty)
  have "page_id ` set (observed [pg 1 ''A''] two_cycle [1, 2]) = {1, 2}"
    by (auto simp: observed_def kids_of_def two_cycle_def pg_def)
  then show "card (page_id ` set (observed [pg 1 ''A''] two_cycle [1, 2])) = 2"
    by simp
qed

text \<open>
  C3, amended. No two objects of the store carry the same id, and there are as many
  objects as distinct ids observed. The objects of the returned forest are among them;
  they are all of them, so that the two numbers agree, when the edges reported to the
  requests have no cycle.
\<close>

theorem one_object_per_id:
  assumes "loop fetchChildren (seed initialPages) = Some (Inr s)"
  shows "buildPageTree initialPages fetchChildren = Some (Inr (forest_of s)) \<and>
         distinct (map page_id (nodes (forest_of s))) \<and>
         length (nodes (forest_of s)) =
           card (page_id ` set (observed initialPages fetchChildren (calls s))) \<and>
         forest_objects (forest_of s) \<subseteq> {..<length (nodes (forest_of s))} \<and>
         (acyclic (child_edges fetchChildren (calls s)) \<longrightarrow>
            card (forest_objects (forest_of s)) =
              card (page_id ` set (observed initialPages fetchChildren (calls s))))"
proof -
  note i = run_final(1)[OF assms]
  note inv = run_invD[OF i]
  have n: "nodes (forest_of s) = heap s" by (simp add: forest_of_def)
  have 1: "distinct (map page_id (heap s))" using inv(1) by (simp add: wf_state_def)
  have 3: "forest_objects (forest_of s) \<subseteq> {..<length (heap s)}"
    using in_forest_bound[OF inv(1)] by (auto simp: forest_objects_def)
  have 4: "card (forest_objects (forest_of s)) = length (heap s)"
    if "acyclic (child_edges fetchChildren (calls s))"
  proof -
    have "{..<length (heap s)} \<subseteq> forest_objects (forest_of s)"
      using acyclic_forest_complete[OF i that] by (auto simp: forest_objects_def)
    with 3 have "forest_objects (forest_of s) = {..<length (heap s)}" by blast
    then show ?thesis by simp
  qed
  from 1 3 4 final_count[OF i] build_forest_of[OF assms] show ?thesis unfolding n by simp
qed

theorem one_object_per_id_witness:
  "loop twice_listed (seed twice_listed_pages) = Some (Inr twice_listed_final) \<and>
   acyclic (child_edges twice_listed (calls twice_listed_final)) \<and>
   distinct (map page_id (nodes (forest_of twice_listed_final))) \<and>
   length (nodes (forest_of twice_listed_final)) = 3 \<and>
   card (forest_objects (forest_of twice_listed_final)) = 3 \<and>
   card (page_id ` set (observed twice_listed_pages twice_listed (calls twice_listed_final))) = 3"
proof -
  have "child_edges twice_listed (calls twice_listed_final) \<subseteq> {(1, 2), (1, 3)}"
    by (auto simp: child_edges_def child_ids_def kids_of_def twice_listed_def pg_def
        split: if_splits)
  moreover have "acyclic {(1::nat, 2::nat), (1, 3)}"
    by (rule acyclicI_order[where f = "\<lambda>n. if n = 1 then 1 else (0::nat)"]) auto
  ultimately have a: "acyclic (child_edges twice_listed (calls twice_listed_final))"
    by (rule acyclic_subset[rotated])
  have l: "length (nodes (forest_of twice_listed_final)) = 3"
    by (simp add: twice_listed_forest)
  from one_object_per_id[OF twice_listed_run] a l twice_listed_run
  show ?thesis by simp
qed

text \<open>
  C2, as stated, fails when the remote data has a cycle: the id of page 1 appears in
  \<open>initialPages\<close>, but no object of the returned forest carries it, the forest
  being empty.
\<close>

theorem occurs_once_counterexample:
  "buildPageTree [pg 1 ''A''] two_cycle = Some (Inr two_cycle_forest) \<and>
   1 \<in> page_id ` set [pg 1 ''A''] \<and>
   1 \<notin> (\<lambda>a. page_id (nodes two_cycle_forest ! a)) ` forest_objects two_cycle_forest"
proof (intro conjI)
  show "buildPageTree [pg 1 ''A''] two_cycle = Some (Inr two_cycle_forest)"
    by (rule two_cycle_build)
  show "1 \<in> page_id ` set [pg 1 ''A'']"
    by (simp add: pg_def)
  show "1 \<notin> (\<lambda>a. page_id (nodes two_cycle_forest ! a)) ` forest_objects two_cycle_forest"
    by (simp add: two_cycle_forest_empty)
qed

text \<open>
  C2, amended. Every id observed has exactly one object in the returned store. When no
  edge to it was recorded, the object occurs exactly once among the roots and in no
  \<^verbatim>\<open>children\<close> array. Otherwise it is no root and occurs exactly once in the
  \<^verbatim>\<open>children\<close> array of the parent whose edge to it was recorded last, which is
  the page of the latest request that returned the id. When the edges reported to the
  requests have no cycle, the object belongs to the returned forest.
\<close>

theorem every_id_has_one_place:
  assumes "loop fetchChildren (seed initialPages) = Some (Inr s)"
    and "i \<in> page_id ` set (observed initialPages fetchChildren (calls s))"
  shows "buildPageTree initialPages fetchChildren = Some (Inr (forest_of s)) \<and>
    childOfMap s i = last_parent fetchChildren (calls s) i \<and>
    (\<exists>a<length (nodes (forest_of s)).
      page_id (nodes (forest_of s) ! a) = i \<and>
      (\<forall>b<length (nodes (forest_of s)). page_id (nodes (forest_of s) ! b) = i \<longrightarrow> b = a) \<and>
      (case last_parent fetchChildren (calls s) i of
         None \<Rightarrow>
           count_list (roots (forest_of s)) a = 1 \<and>
           (\<forall>x<length (nodes (forest_of s)). a \<notin> set (children (nodes (forest_of s) ! x)))
       | Some p \<Rightarrow>
           a \<notin> set (roots (forest_of s)) \<and>
           (\<exists>pa<length (nodes (forest_of s)). page_id (nodes (forest_of s) ! pa) = p \<and>
              count_list (children (nodes (forest_of s) ! pa)) a = 1)) \<and>
      (acyclic (child_edges fetchChildren (calls s)) \<longrightarrow> in_forest (forest_of s) a))"
proof -
  note inv0 = run_final(1)[OF assms(1)]
  note inv = run_invD[OF inv0]
  have n: "nodes (forest_of s) = heap s" by (simp add: forest_of_def)
  have d: "distinct (map page_id (heap s))" using inv(1) by (simp add: wf_state_def)
  from assms(2) have "i \<in> page_id ` set (heap s)" by (simp only: final_ids[OF inv0])
  then obtain a where a: "a < length (heap s)" "page_id (heap s ! a) = i"
    by (auto simp: in_set_conv_nth)
  have u: "\<forall>b<length (heap s). page_id (heap s ! b) = i \<longrightarrow> b = a"
    using d a by (auto simp: distinct_conv_nth)
  have lp: "last_parent fetchChildren (calls s) i = childOfMap s i" by (simp only: inv(5))
  have place: "case childOfMap s i of
         None \<Rightarrow>
           count_list (roots (forest_of s)) a = 1 \<and>
           (\<forall>x<length (heap s). a \<notin> set (children (heap s ! x)))
       | Some p \<Rightarrow>
           a \<notin> set (roots (forest_of s)) \<and>
           (\<exists>pa<length (heap s). page_id (heap s ! pa) = p \<and>
              count_list (children (heap s ! pa)) a = 1)"
  proof (cases "childOfMap s i")
    case None
    have "distinct (roots (forest_of s))"
      by (simp add: forest_of_def wf_roots[OF inv(1)])
    moreover have "a \<in> set (roots (forest_of s))"
      using None a by (simp add: wf_root_iff[OF inv(1)])
    ultimately have "count_list (roots (forest_of s)) a = 1"
      by (simp add: count_list_distinct)
    moreover have "a \<notin> set (children (heap s ! x))" if "x < length (heap s)" for x
    proof
      assume "a \<in> set (children (heap s ! x))"
      with inv(1) that have "childOfMap s (page_id (heap s ! a)) \<noteq> None"
        by (simp add: wf_state_def)
      with None a(2) show False by simp
    qed
    ultimately show ?thesis using None by simp
  next
    case (Some p)
    then have "a \<notin> set (roots (forest_of s))"
      using a by (simp add: wf_root_iff[OF inv(1)])
    moreover from wf_parent_edge[OF inv(1) a(1)] Some a(2) obtain pa where
      pa: "pa < length (heap s)" "page_id (heap s ! pa) = p" "a \<in> set (children (heap s ! pa))"
      by auto
    have "distinct (children (heap s ! pa))" using inv(1) pa(1) by (simp add: wf_state_def)
    with pa(3) have "count_list (children (heap s ! pa)) a = 1"
      by (simp add: count_list_distinct)
    with pa have "\<exists>pa<length (heap s). page_id (heap s ! pa) = p \<and>
              count_list (children (heap s ! pa)) a = 1" by blast
    ultimately show ?thesis using Some by simp
  qed
  have "acyclic (child_edges fetchChildren (calls s)) \<longrightarrow> in_forest (forest_of s) a"
    using acyclic_forest_complete[OF inv0 _ a(1)] by blast
  then show ?thesis
    unfolding n lp using a u place build_forest_of[OF assms(1)] by blast
qed

theorem every_id_has_one_place_witness:
  "loop twice_listed (seed twice_listed_pages) = Some (Inr twice_listed_final) \<and>
   2 \<in> page_id ` set (observed twice_listed_pages twice_listed (calls twice_listed_final)) \<and>
   last_parent twice_listed (calls twice_listed_final) 2 = Some 1 \<and>
   page_id (nodes (forest_of twice_listed_final) ! 2) = 2 \<and>
   page_id (nodes (forest_of twice_listed_final) ! 0) = 1 \<and>
   2 \<notin> set (roots (forest_of twice_listed_final)) \<and>
   count_list (children (nodes (forest_of twice_listed_final) ! 0)) 2 = 1"
proof -
  have o: "2 \<in> page_id ` set (observed twice_listed_pages twice_listed (calls twice_listed_final))"
    by (simp add: observed_def twice_listed_pages_def twice_listed_final_def kids_of_def
        twice_listed_def pg_def)
  have l: "last_parent twice_listed (calls twice_listed_final) 2 = Some 1"
    by code_simp
  have ids: "page_id (nodes (forest_of twice_listed_final) ! 2) = 2"
    "page_id (nodes (forest_of twice_listed_final) ! 0) = 1"
    by (simp_all add: twice_listed_forest)
  have only2: "a = 2" if "a < length (nodes (forest_of twice_listed_final))"
    "page_id (nodes (forest_of twice_listed_final) ! a) = 2" for a
    using that by (auto simp: twice_listed_forest less_Suc_eq numeral_3_eq_3)
  have only0: "a = 0" if "a < length (nodes (forest_of twice_listed_final))"
    "page_id (nodes (forest_of twice_listed_final) ! a) = 1" for a
    using that by (auto simp: twice_listed_forest less_Suc_eq numeral_3_eq_3)
  from every_id_has_one_place[OF twice_listed_run o] obtain a where
    a: "a < length (nodes (forest_of twice_listed_final))"
      "page_id (nodes (forest_of twice_listed_final) ! a) = 2"
      "a \<notin> set (roots (forest_of twice_listed_final)) \<and>
       (\<exists>pa<length (nodes (forest_of twice_listed_final)).
          page_id (nodes (forest_of twice_listed_final) ! pa) = 1 \<and>
          count_list (children (nodes (forest_of twice_listed_final) ! pa)) a = 1)"
    unfolding l by auto
  from only2[OF a(1,2)] a(3) only0 have
    "2 \<notin> set (roots (forest_of twice_listed_final)) \<and>
     count_list (children (nodes (forest_of twice_listed_final) ! 0)) 2 = 1"
    by auto
  with twice_listed_run o l ids show ?thesis by blast
qed

text \<open>
  C1 fails on the code. Page 3 is reported as a child of page 1 and then of page 2:
  the object of page 3 (address 2) stays in the \<^verbatim>\<open>children\<close> array of page 1
  when it is pushed onto that of page 2. It is no root, but both parents are, so
  page 3 appears twice in the returned forest.
\<close>

theorem moved_page_under_both_parents:
  "buildPageTree [pg 1 ''A'', pg 2 ''B''] moved_page = Some (Inr moved_page_forest) \<and>
   page_id (nodes moved_page_forest ! 2) = 3 \<and>
   2 \<in> set (children (nodes moved_page_forest ! 0)) \<and>
   2 \<in> set (children (nodes moved_page_forest ! 1)) \<and>
   2 \<notin> set (roots moved_page_forest)"
proof (intro conjI)
  show "buildPageTree [pg 1 ''A'', pg 2 ''B''] moved_page = Some (Inr moved_page_forest)"
    by (simp add: buildPageTree_def loop.simps seed_def seed_page_def init_state_def
      process_page_def process_child_def dequeue_def current_id_def new_node_def
      moved_page_def forest_of_def rootPages_def pg_def moved_page_forest_def)
qed (simp_all add: moved_page_forest_def)

section \<open>Requests, failure and termination\<close>

lemma process_child_calls [simp]: "calls (process_child cur s cd) = calls s"
  by (simp add: process_child_def Let_def split: option.split)

lemma children_loop_calls [simp]: "calls (foldl (process_child cur) s kids) = calls s"
  by (induction kids arbitrary: s) simp_all

lemma process_page_calls: "calls (process_page s kids) = calls s @ [current_id s]"
  by (simp add: process_page_def dequeue_def)

lemma seed_calls: "calls (seed initialPages) = []"
  using wf_foldl_seed[OF wf_init, of initialPages] by (simp add: seed_def init_state_def)

lemma reaches_agree:
  assumes "reaches f s t" "\<forall>i\<in>set (calls t). g i = f i"
  shows "reaches g s t"
  using assms
proof (induction rule: reaches.induct)
  case start
  show ?case by (rule reaches.start)
next
  case (visit t kids)
  from visit.prems have "g (current_id t) = f (current_id t)" "\<forall>i\<in>set (calls t). g i = f i"
    by (simp_all add: process_page_calls)
  with visit show ?case by (auto intro: reaches.visit)
qed

lemma run_requests_distinct:
  assumes "run_inv initialPages f t" "n \<le> length (heap t)"
  shows "distinct (map page_id (take n (heap t)))"
proof -
  have "distinct (map page_id (heap t))"
    using run_invD(1)[OF assms(1)] by (simp add: wf_state_def)
  then have "distinct (take n (map page_id (heap t)))" by (rule distinct_take)
  then show ?thesis by (simp add: take_map)
qed

lemma run_next_request:
  assumes "run_inv initialPages f t" "head t < length (queue t)"
  shows "calls t @ [current_id t] = map page_id (take (Suc (head t)) (heap t))"
proof -
  note inv = run_invD[OF assms(1)]
  note c = wf_current[OF inv(1) assms(2)]
  show ?thesis by (simp add: inv(3) c(2,3) take_Suc_conv_app_nth)
qed

lemma reached_ids:
  assumes "reaches f (seed initialPages) t"
  shows "page_id ` set (heap t) \<subseteq> reachable_ids initialPages f"
proof -
  have i: "run_inv initialPages f t" by (rule reaches_inv[OF assms seed_inv])
  have c: "set (calls t) \<subseteq> reachable_ids initialPages f"
    using assms
  proof (induction rule: reaches.induct)
    case start
    show ?case by (simp add: seed_calls)
  next
    case (visit t kids)
    have it: "run_inv initialPages f t" by (rule reaches_inv[OF visit.hyps(1) seed_inv])
    have "current_id t \<in> page_id ` set (heap t)"
      using wf_current(2,3)[OF run_invD(1)[OF it] visit.hyps(2)] by simp
    also have "\<dots> = page_id ` set initialPages \<union> \<Union> (child_ids f ` set (calls t))"
      by (simp only: final_ids[OF it] observed_ids)
    finally have "current_id t \<in> reachable_ids initialPages f"
      using visit.IH by (auto intro: reachable_ids.intros)
    with visit.IH show ?case by (simp add: process_page_calls)
  qed
  have "page_id ` set (heap t) = page_id ` set initialPages \<union> \<Union> (child_ids f ` set (calls t))"
    by (simp only: final_ids[OF i] observed_ids)
  with c show ?thesis by (auto intro: reachable_ids.intros)
qed

lemma loop_returns:
  assumes "finite (reachable_ids initialPages f)" "reaches f (seed initialPages) t"
  shows "\<exists>r. loop f t = Some r"
  using assms(2)
proof (induction "card (reachable_ids initialPages f) - head t" arbitrary: t rule: less_induct)
  case less
  show ?case
  proof (cases "head t < length (queue t)")
    case False
    then show ?thesis by (simp add: loop.simps[of f t])
  next
    case True
    show ?thesis
    proof (cases "f (current_id t)")
      case (Inl e)
      with True show ?thesis by (simp add: loop.simps[of f t])
    next
      case (Inr kids)
      let ?u = "process_page t kids"
      have i: "run_inv initialPages f t" by (rule reaches_inv[OF less.prems seed_inv])
      have w: "wf_state t" by (rule run_invD(1)[OF i])
      have u: "reaches f (seed initialPages) ?u"
        by (rule reaches.visit[OF less.prems True Inr])
      have "distinct (map page_id (heap t))" using w by (simp add: wf_state_def)
      then have "length (heap t) = card (page_id ` set (heap t))"
        using distinct_card[of "map page_id (heap t)"] by simp
      also have "\<dots> \<le> card (reachable_ids initialPages f)"
        by (rule card_mono[OF assms(1) reached_ids[OF less.prems]])
      finally have "head t < card (reachable_ids initialPages f)"
        using wf_current(2)[OF w True] by simp
      moreover have "head ?u = Suc (head t)" by (rule process_page_props(2)[OF w True])
      ultimately have "card (reachable_ids initialPages f) - head ?u
          < card (reachable_ids initialPages f) - head t" by simp
      from less.hyps[OF this u] obtain r where "loop f ?u = Some r" by blast
      with True Inr show ?thesis by (simp add: loop.simps[of f t])
    qed
  qed
qed

lemma loop_requests:
  assumes "loop f (seed initialPages) = Some r"
  shows "distinct (requests r)" and "set (requests r) \<subseteq> reachable_ids initialPages f"
proof -
  from loop_result[OF assms] obtain t where t: "reaches f (seed initialPages) t"
    and r: "case r of
       Inr u \<Rightarrow> u = t \<and> \<not> head t < length (queue t)
     | Inl (e, tr) \<Rightarrow> head t < length (queue t) \<and> f (current_id t) = Inl e \<and>
         tr = calls t @ [current_id t]" by blast
  have i: "run_inv initialPages f t" by (rule reaches_inv[OF t seed_inv])
  note inv = run_invD[OF i]
  have "\<exists>n\<le>length (heap t). requests r = map page_id (take n (heap t))"
  proof (cases r)
    case (Inr u)
    with r inv(2,3) show ?thesis by (auto simp: requests_def)
  next
    case (Inl p)
    obtain e tr where p: "p = (e, tr)" by (cases p)
    with Inl r have h: "head t < length (queue t)" and tr: "tr = calls t @ [current_id t]"
      by simp_all
    have "Suc (head t) \<le> length (heap t)" using wf_current(2)[OF inv(1) h] by simp
    with Inl p tr run_next_request[OF i h] show ?thesis by (auto simp: requests_def)
  qed
  then obtain n where n: "n \<le> length (heap t)" "requests r = map page_id (take n (heap t))"
    by blast
  show "distinct (requests r)"
    unfolding n(2) by (rule run_requests_distinct[OF i n(1)])
  have "set (take n (heap t)) \<subseteq> set (heap t)" by (rule set_take_subset)
  then have "set (requests r) \<subseteq> page_id ` set (heap t)" unfolding n(2) by auto
  with reached_ids[OF t] show "set (requests r) \<subseteq> reachable_ids initialPages f" by blast
qed

lemma build_None: "buildPageTree initialPages f = None \<longleftrightarrow> loop f (seed initialPages) = None"
  by (auto simp: buildPageTree_def split: option.splits sum.splits)

lemma endless_shape:
  assumes "reaches endless (seed [pg 0 []]) t"
  shows "map page_id (heap t) = [0..<Suc (head t)]"
  using assms
proof (induction rule: reaches.induct)
  case start
  show ?case
    by (simp add: seed_def seed_page_def init_state_def pg_def new_node_def)
next
  case (visit t kids)
  have i: "run_inv [pg 0 []] endless t" by (rule reaches_inv[OF visit.hyps(1) seed_inv])
  have w: "wf_state t" by (rule run_invD(1)[OF i])
  note c = wf_current[OF w visit.hyps(2)]
  have "page_id (heap t ! head t) = map page_id (heap t) ! head t"
    using c(2) by simp
  also have "\<dots> = head t" by (simp only: visit.IH) (simp add: nth_append)
  finally have cur: "current_id t = head t" by (simp add: c(3))
  from visit.hyps(3) have kids: "kids = [pg (Suc (head t)) []]"
    by (simp add: endless_def cur)
  have "page_id ` set (registry t) = set [0..<Suc (head t)]"
    using visit.IH by (metis ids_registry list.set_map)
  then have "Suc (head t) \<notin> page_id ` set (registry t)" by simp
  then have "registry (process_page t kids) = registry t @ [pg (Suc (head t)) []]"
    by (simp add: process_page_props(4)[OF w visit.hyps(2)] kids observe_def pg_def)
  then have "map page_id (registry (process_page t kids)) = [0..<Suc (head t)] @ [Suc (head t)]"
    using visit.IH by (simp add: pg_def)
  then show ?case
    by (simp add: process_page_props(2)[OF w visit.hyps(2)])
qed

text \<open>
  C4, as stated, fails: nothing bounds the loop when the remote data never stops
  producing new ids. With every page reporting a child with the next id, the build of
  the single initial page 0 never returns.
\<close>

theorem endless_chain_counterexample:
  "buildPageTree [pg 0 []] endless = None \<and> loop endless (seed [pg 0 []]) = None"
proof -
  have "loop endless (seed [pg 0 []]) = None"
  proof (rule ccontr)
    assume "loop endless (seed [pg 0 []]) \<noteq> None"
    then obtain r where "loop endless (seed [pg 0 []]) = Some r" by blast
    from loop_result[OF this] obtain t where t: "reaches endless (seed [pg 0 []]) t"
      and r: "case r of
         Inr u \<Rightarrow> u = t \<and> \<not> head t < length (queue t)
       | Inl (e, tr) \<Rightarrow> head t < length (queue t) \<and> endless (current_id t) = Inl e \<and>
           tr = calls t @ [current_id t]" by blast
    have "length (map page_id (heap t)) = Suc (head t)"
      by (simp only: endless_shape[OF t]) simp
    moreover have "length (queue t) = length (heap t)"
      using run_invD(1)[OF reaches_inv[OF t seed_inv]] by (simp add: wf_state_def)
    ultimately have "head t < length (queue t)" by simp
    with r show False by (cases r) (auto simp: endless_def)
  qed
  then show ?thesis by (simp add: build_None)
qed

lemma two_cycle_reachable: "reachable_ids [pg 1 ''A''] two_cycle \<subseteq> {1, 2}"
proof
  fix i assume "i \<in> reachable_ids [pg 1 ''A''] two_cycle"
  then show "i \<in> {1, 2}"
    by (induction rule: reachable_ids.induct)
       (auto simp: pg_def child_ids_def kids_of_def two_cycle_def split: if_splits)
qed

text \<open>
  C4, amended. When the remote data leads to finitely many ids from the initial pages,
  cycles included, the build returns (with a forest or with an error), and it has
  requested the children of no id twice, and only of ids the data leads to.
\<close>

theorem build_terminates:
  assumes "finite (reachable_ids initialPages fetchChildren)"
  shows "\<exists>r. loop fetchChildren (seed initialPages) = Some r \<and> distinct (requests r) \<and>
           set (requests r) \<subseteq> reachable_ids initialPages fetchChildren \<and>
           buildPageTree initialPages fetchChildren \<noteq> None"
proof -
  from loop_returns[OF assms reaches.start] obtain r where
    r: "loop fetchChildren (seed initialPages) = Some r" by blast
  then have "buildPageTree initialPages fetchChildren \<noteq> None" by (simp add: build_None)
  with r loop_requests[OF r] show ?thesis by blast
qed

theorem build_terminates_witness:
  "finite (reachable_ids [pg 1 ''A''] two_cycle) \<and>
   (\<exists>r. loop two_cycle (seed [pg 1 ''A'']) = Some r \<and> distinct (requests r) \<and>
      set (requests r) \<subseteq> reachable_ids [pg 1 ''A''] two_cycle \<and>
      buildPageTree [pg 1 ''A''] two_cycle \<noteq> None)"
proof -
  have f: "finite (reachable_ids [pg 1 ''A''] two_cycle)"
    by (rule finite_subset[OF two_cycle_reachable]) simp
  from build_terminates[OF f] f show ?thesis by blast
qed

text \<open>
  C7. When the run reaches a request that \<^verbatim>\<open>fetchChildren\<close> rejects, the build
  returns that very error and no forest; the rejected request is the last one issued,
  and its page had not been requested before, nor is it requested again.
\<close>

theorem fetch_failure_aborts_build:
  assumes "reaches fetchChildren (seed initialPages) t" and "head t < length (queue t)"
    and "fetchChildren (current_id t) = Inl e"
  shows "buildPageTree initialPages fetchChildren = Some (Inl e) \<and>
         loop fetchChildren (seed initialPages) = Some (Inl (e, calls t @ [current_id t])) \<and>
         current_id t \<notin> set (calls t)"
proof -
  have "loop fetchChildren (seed initialPages) = loop fetchChildren t"
    by (rule loop_reaches[OF assms(1)])
  also have "\<dots> = Some (Inl (e, calls t @ [current_id t]))"
    using assms(2,3) by (simp add: loop.simps[of fetchChildren t] dequeue_def)
  finally have l: "loop fetchChildren (seed initialPages) = Some (Inl (e, calls t @ [current_id t]))" .
  then have b: "buildPageTree initialPages fetchChildren = Some (Inl e)"
    by (simp add: buildPageTree_def)
  have i: "run_inv initialPages fetchChildren t" by (rule reaches_inv[OF assms(1) seed_inv])
  have "Suc (head t) \<le> length (heap t)"
    using wf_current(2)[OF run_invD(1)[OF i] assms(2)] by simp
  from run_requests_distinct[OF i this] have "distinct (calls t @ [current_id t])"
    by (simp only: run_next_request[OF i assms(2)])
  then have "current_id t \<notin> set (calls t)" by simp
  with l b show ?thesis by blast
qed

theorem fetch_failure_aborts_build_witness:
  "reaches broken (seed [pg 1 ''A'']) (process_page (seed [pg 1 ''A'']) [pg 2 ''B'']) \<and>
   head (process_page (seed [pg 1 ''A'']) [pg 2 ''B''])
     < length (queue (process_page (seed [pg 1 ''A'']) [pg 2 ''B''])) \<and>
   broken (current_id (process_page (seed [pg 1 ''A'']) [pg 2 ''B''])) = Inl ''timeout'' \<and>
   buildPageTree [pg 1 ''A''] broken = Some (Inl ''timeout'') \<and>
   loop broken (seed [pg 1 ''A'']) = Some (Inl (''timeout'', [1, 2]))"
proof -
  let ?s = "seed [pg 1 ''A'']"
  let ?t = "process_page ?s [pg 2 ''B'']"
  have s: "?s = \<lparr>heap = [\<lparr>page_id = 1, title = ''A'', children = []\<rparr>], pageMap = [(1, 0)],
      childOfMap = Map.empty, queue = [0], head = 0, calls = []\<rparr>"
    by (simp add: seed_def seed_page_def init_state_def pg_def new_node_def)
  have t: "?t = \<lparr>heap = [\<lparr>page_id = 1, title = ''A'', children = [1]\<rparr>,
        \<lparr>page_id = 2, title = ''B'', children = []\<rparr>], pageMap = [(1, 0), (2, 1)],
      childOfMap = [2 \<mapsto> 1], queue = [0, 1], head = 1, calls = [1]\<rparr>"
    unfolding s
    by (simp add: process_page_def process_child_def dequeue_def current_id_def pg_def
        new_node_def)
  have 0: "head ?s < length (queue ?s)" "broken (current_id ?s) = Inr [pg 2 ''B'']"
    unfolding s by (simp_all add: current_id_def broken_def)
  have r: "reaches broken ?s ?t"
    by (rule reaches.visit[OF reaches.start[of broken ?s] 0])
  have h: "head ?t < length (queue ?t)" unfolding t by simp
  have c: "current_id ?t = 2" unfolding t by (simp add: current_id_def)
  have e: "broken (current_id ?t) = Inl ''timeout''" unfolding c by (simp add: broken_def)
  have "calls ?t @ [current_id ?t] = [1, 2]" unfolding c unfolding t by simp
  with fetch_failure_aborts_build[OF r h e] r h e show ?thesis by simp
qed

text \<open>
  C8. In a run that returns a forest, the requests were issued in the order in which
  the ids were discovered (the initial pages first, then the children in the order of
  the answers). The run depends on \<^verbatim>\<open>fetchChildren\<close> only through the answers to
  these requests: any fetcher that gives the same answers to them leads to the same
  final state and to the same forest, so two runs on the same input agree.
\<close>

theorem requests_in_discovery_order:
  assumes "loop fetchChildren (seed initialPages) = Some (Inr s)"
    and "\<forall>i\<in>set (calls s). g i = fetchChildren i"
  shows "calls s = map page_id (foldl observe [] (observed initialPages fetchChildren (calls s))) \<and>
         loop g (seed initialPages) = Some (Inr s) \<and>
         buildPageTree initialPages g = buildPageTree initialPages fetchChildren \<and>
         buildPageTree initialPages fetchChildren = Some (Inr (forest_of s))"
proof -
  note f = run_final[OF assms(1)]
  note inv = run_invD[OF f(1)]
  have "calls s = map page_id (registry s)"
    by (simp add: inv(3) f(2))
  also have "registry s = foldl observe [] (observed initialPages fetchChildren (calls s))"
    by (rule inv(4))
  finally have 1: "calls s =
      map page_id (foldl observe [] (observed initialPages fetchChildren (calls s)))" .
  have "length (queue s) = length (heap s)" using inv(1) by (simp add: wf_state_def)
  then have "\<not> head s < length (queue s)" using f(2) by simp
  then have "loop g s = Some (Inr s)" by (simp add: loop.simps[of g s])
  with loop_reaches[OF reaches_agree[OF f(3) assms(2)]]
  have 2: "loop g (seed initialPages) = Some (Inr s)" by simp
  from 1 2 assms(1) show ?thesis by (simp add: buildPageTree_def)
qed

theorem requests_in_discovery_order_witness:
  "loop twice_listed (seed twice_listed_pages) = Some (Inr twice_listed_final) \<and>
   calls twice_listed_final = [1, 3, 2] \<and>
   twice_listed_alt 1 = twice_listed 1 \<and> twice_listed_alt 3 = twice_listed 3 \<and>
   twice_listed_alt 2 = twice_listed 2 \<and>
   map page_id (foldl observe []
     (observed twice_listed_pages twice_listed (calls twice_listed_final))) = [1, 3, 2] \<and>
   loop twice_listed_alt (seed twice_listed_pages) = Some (Inr twice_listed_final) \<and>
   buildPageTree twice_listed_pages twice_listed_alt =
     buildPageTree twice_listed_pages twice_listed"
proof -
  have c: "calls twice_listed_final = [1, 3, 2]" by (simp add: twice_listed_final_def)
  have a: "twice_listed_alt 1 = twice_listed 1" "twice_listed_alt 3 = twice_listed 3"
    "twice_listed_alt 2 = twice_listed 2"
    by (simp_all add: twice_listed_alt_def twice_listed_def)
  then have "\<forall>i\<in>set (calls twice_listed_final). twice_listed_alt i = twice_listed i"
    by (simp add: c)
  from requests_in_discovery_order[OF twice_listed_run this] twice_listed_run c a
  show ?thesis by simp
qed

end
